theory Spec2Isabelle
  imports Main "HOL-Library.AList" "HOL-Library.Sublist" "HOL-Library.Char_ord"
    "HOL-Library.List_Lexorder" "HOL-Library.Word"
begin

section \<open>Relationship graph (src/relation/resource\_graph.js)\<close>

text \<open>
  JavaScript objects whose keys the code reads by name are finite maps from key to value;
  the values the graph reads are strings, so a field map is \<open>string \<rightharpoonup> string\<close>.
  An absent key is JavaScript's \<open>undefined\<close>.  The object spread
  \<open>{...a, ...b}\<close> is \<open>a ++ b\<close>.
\<close>

type_synonym obj = "string \<rightharpoonup> string"

datatype error = Error string

text \<open>\<open>x || y\<close> on string-or-undefined values: \<open>undefined\<close> and the empty
  string are falsy.\<close>

definition truthy :: "string option \<Rightarrow> bool" where
  "truthy v = (case v of None \<Rightarrow> False | Some s \<Rightarrow> s \<noteq> [])"

definition js_or :: "string option \<Rightarrow> string option \<Rightarrow> string option" where
  "js_or a b = (if truthy a then a else b)"

text \<open>\<open>x || d\<close> where the right operand is a string.\<close>

definition js_or_str :: "string option \<Rightarrow> string \<Rightarrow> string" where
  "js_or_str a d = (case a of None \<Rightarrow> d | Some s \<Rightarrow> if s = [] then d else s)"

text \<open>\<open>s.split(c)\<close> for a one-character separator: never empty, and the
  pieces joined by \<open>c\<close> give \<open>s\<close> back.\<close>

fun js_split :: "char \<Rightarrow> string \<Rightarrow> string list" where
  "js_split c [] = [[]]"
| "js_split c (x # xs) =
     (if x = c then [] # js_split c xs
      else (case js_split c xs of p # ps \<Rightarrow> (x # p) # ps | [] \<Rightarrow> [[x]]))"

definition RELATIONSHIP_TYPES :: "string list" where
  "RELATIONSHIP_TYPES =
    [''contains'', ''isPartOf'', ''hasComponent'', ''isComponentOf'',
     ''wasDerivedFrom'', ''wasRevisionOf'', ''wasQuotedFrom'', ''wasInfluencedBy'',
     ''wasGeneratedBy'', ''used'', ''wasAttributedTo'', ''wasAssociatedWith'',
     ''dependsOn'', ''requires'', ''uses'', ''supports'',
     ''precedes'', ''follows'', ''replaces'',
     ''trainedOn'', ''fineTunedFrom'', ''generates'', ''analyzes'']"

definition RESOURCE :: string where "RESOURCE = ''DigitalResource''"
definition MODEL :: string where "MODEL = ''AIModel''"
definition AGENT :: string where "AGENT = ''Agent''"
definition PERSON :: string where "PERSON = ''Person''"
definition ORGANIZATION :: string where "ORGANIZATION = ''Organization''"
definition SOFTWARE :: string where "SOFTWARE = ''Software''"
definition ACTIVITY :: string where "ACTIVITY = ''Activity''"

text \<open>
  An edge is the object literal \<open>{from, to, type, created, ...metadata}\<close> of
  \<open>addEdge\<close>: the four named keys are always present (metadata may override them),
  every other key lives in \<open>eprops\<close>.
\<close>

record edge =
  efrom :: string
  eto :: string
  etype :: string
  ecreated :: string
  eprops :: obj

text \<open>The PROV document built by \<open>toPROV\<close>.  The fixed \<open>prov:\<close> and
  \<open>rdfs:\<close> keys of an entry are record fields (\<open>None\<close>: key absent or
  \<open>undefined\<close>); the \<open>asset:<type>\<close> keys of an entity are an association
  list keyed by the relationship type, in order of first insertion.\<close>

record prov_entity =
  pe_type :: "string option"
  pe_label :: "string option"
  pe_generatedAtTime :: "string option"
  pe_wasDerivedFrom :: "string list option"
  pe_wasGeneratedBy :: "string option"
  pe_wasAttributedTo :: "string option"
  pe_asset :: "(string \<times> string list) list"

record prov_activity =
  pa_startedAtTime :: "string option"
  pa_endedAtTime :: "string option"
  pa_label :: "string option"
  pa_used :: "string list option"
  pa_wasAssociatedWith :: "string option"

record prov_agent =
  pg_type :: "string option"
  pg_label :: "string option"

record prov =
  entity :: "(string \<times> prov_entity) list"
  activity :: "(string \<times> prov_activity) list"
  agent :: "(string \<times> prov_agent) list"

text \<open>The state of a \<open>ResourceGraph\<close>: \<open>nodes\<close> is the insertion-ordered
  \<open>Map\<close> from DID to node object, \<open>edges\<close> the edge array, \<open>provData\<close> the
  cached projection and \<open>modified\<close> the dirty flag.\<close>

record graph =
  nodes :: "(string \<times> obj) list"
  edges :: "edge list"
  provData :: "prov option"
  modified :: bool

definition new_graph :: graph where
  "new_graph = \<lparr>nodes = [], edges = [], provData = None, modified = False\<rparr>"

definition has_node :: "graph \<Rightarrow> string \<Rightarrow> bool" where
  "has_node g did = (map_of (nodes g) did \<noteq> None)"

text \<open>\<open>addNode(did, metadata)\<close>.  \<open>t1\<close> and \<open>t2\<close> are the results of the
  successive \<open>new Date().toISOString()\<close> reads.\<close>

definition addNode :: "string \<Rightarrow> obj \<Rightarrow> string \<Rightarrow> string \<Rightarrow> graph \<Rightarrow> error + graph" where
  "addNode did metadata t1 t2 g =
     (if did = [] then Inl (Error ''DID is required to add a node'')
      else (case map_of (nodes g) did of
         Some existingNode \<Rightarrow>
           Inr (g\<lparr>nodes := AList.update did ((existingNode ++ metadata)(''updated'' \<mapsto> t1)) (nodes g),
                  modified := True\<rparr>)
       | None \<Rightarrow>
           Inr (g\<lparr>nodes := AList.update did
                    ([''did'' \<mapsto> did,
                      ''type'' \<mapsto> js_or_str (metadata ''type'') RESOURCE,
                      ''label'' \<mapsto> js_or_str (metadata ''label'') (last (js_split CHR '':'' did)),
                      ''created'' \<mapsto> t1,
                      ''updated'' \<mapsto> t2] ++ metadata) (nodes g),
                  modified := True\<rparr>)))"

definition edge_is :: "string \<Rightarrow> string \<Rightarrow> string \<Rightarrow> edge \<Rightarrow> bool" where
  "edge_is f t ty e = (efrom e = f \<and> eto e = t \<and> etype e = ty)"

text \<open>\<open>Array.prototype.findIndex\<close>: the first index whose element satisfies the
  predicate, \<open>None\<close> for \<open>-1\<close>.\<close>

fun findIndex :: "('a \<Rightarrow> bool) \<Rightarrow> 'a list \<Rightarrow> nat option" where
  "findIndex P [] = None"
| "findIndex P (x # xs) = (if P x then Some 0 else map_option Suc (findIndex P xs))"

definition edge_keys :: "string set" where
  "edge_keys = {''from'', ''to'', ''type'', ''created''}"

definition or_else :: "'a option \<Rightarrow> 'a \<Rightarrow> 'a" where
  "or_else v d = (case v of Some x \<Rightarrow> x | None \<Rightarrow> d)"

text \<open>The literal \<open>{from, to, type, created: now, ...metadata}\<close>.\<close>

definition mk_edge :: "string \<Rightarrow> string \<Rightarrow> string \<Rightarrow> string \<Rightarrow> obj \<Rightarrow> edge" where
  "mk_edge fromDID toDID relationshipType t1 metadata =
     \<lparr>efrom = or_else (metadata ''from'') fromDID,
      eto = or_else (metadata ''to'') toDID,
      etype = or_else (metadata ''type'') relationshipType,
      ecreated = or_else (metadata ''created'') t1,
      eprops = metadata |` (- edge_keys)\<rparr>"

text \<open>\<open>{...existing, ...edge, updated: now}\<close>: every key of the new literal wins.\<close>

definition merge_edge :: "edge \<Rightarrow> edge \<Rightarrow> string \<Rightarrow> edge" where
  "merge_edge existing e t2 =
     e\<lparr>eprops := (eprops existing ++ eprops e)(''updated'' \<mapsto> t2)\<rparr>"

definition addEdge ::
  "string \<Rightarrow> string \<Rightarrow> string \<Rightarrow> obj \<Rightarrow> string \<Rightarrow> string \<Rightarrow> graph \<Rightarrow> error + graph" where
  "addEdge fromDID toDID relationshipType metadata t1 t2 g =
     (if \<not> has_node g fromDID then Inl (Error ''Source node does not exist'')
      else if \<not> has_node g toDID then Inl (Error ''Target node does not exist'')
      else if relationshipType \<notin> set RELATIONSHIP_TYPES then Inl (Error ''Invalid relationship type'')
      else (let e = mk_edge fromDID toDID relationshipType t1 metadata in
        (case findIndex (edge_is fromDID toDID relationshipType) (edges g) of
           Some i \<Rightarrow> Inr (g\<lparr>edges := (edges g)[i := merge_edge (edges g ! i) e t2], modified := True\<rparr>)
         | None \<Rightarrow> Inr (g\<lparr>edges := edges g @ [e], modified := True\<rparr>))))"

text \<open>\<open>removeNode\<close> and \<open>removeEdge\<close> return the new state; the boolean the
  JavaScript returns is \<open>has_node g did\<close>, respectively the new \<open>modified\<close> flag.\<close>

definition removeNode :: "string \<Rightarrow> graph \<Rightarrow> graph" where
  "removeNode did g =
     (if \<not> has_node g did then g
      else g\<lparr>nodes := AList.delete did (nodes g),
             edges := filter (\<lambda>e. efrom e \<noteq> did \<and> eto e \<noteq> did) (edges g),
             modified := True\<rparr>)"

definition removeEdge :: "string \<Rightarrow> string \<Rightarrow> string option \<Rightarrow> graph \<Rightarrow> graph" where
  "removeEdge fromDID toDID relationshipType g =
     (let initialCount = length (edges g);
          es = (if truthy relationshipType
                then filter (\<lambda>e. \<not> (efrom e = fromDID \<and> eto e = toDID \<and> Some (etype e) = relationshipType)) (edges g)
                else filter (\<lambda>e. \<not> (efrom e = fromDID \<and> eto e = toDID)) (edges g))
      in g\<lparr>edges := es, modified := (length es \<noteq> initialCount)\<rparr>)"

datatype direction = Outgoing | Incoming | Both

definition getEdges :: "graph \<Rightarrow> string \<Rightarrow> direction \<Rightarrow> edge list" where
  "getEdges g did dir =
     (if \<not> has_node g did then []
      else (case dir of
              Outgoing \<Rightarrow> filter (\<lambda>e. efrom e = did) (edges g)
            | Incoming \<Rightarrow> filter (\<lambda>e. eto e = did) (edges g)
            | Both \<Rightarrow> filter (\<lambda>e. efrom e = did \<or> eto e = did) (edges g)))"

definition ex_nodes_ab :: graph where
  "ex_nodes_ab = \<lparr>nodes = [(''did:asset:text:a'', [''did'' \<mapsto> ''did:asset:text:a'', ''type'' \<mapsto> ''DigitalResource'',
        ''label'' \<mapsto> ''a'', ''created'' \<mapsto> ''T0'', ''updated'' \<mapsto> ''T0'']),
       (''did:asset:text:b'', [''did'' \<mapsto> ''did:asset:text:b'', ''type'' \<mapsto> ''DigitalResource'',
        ''label'' \<mapsto> ''b'', ''created'' \<mapsto> ''T0'', ''updated'' \<mapsto> ''T0''])],
     edges = [], provData = None, modified = True\<rparr>"

section \<open>Properties of the graph mutators\<close>

lemma findIndex_Some:
  "findIndex P xs = Some i \<Longrightarrow> i < length xs \<and> P (xs ! i)"
  by (induction xs arbitrary: i) (auto split: if_splits)

lemma findIndex_None: "findIndex P xs = None \<longleftrightarrow> (\<forall>x \<in> set xs. \<not> P x)"
  by (induction xs) auto

text \<open>
  C10.  \<open>addNode\<close> on an identifier already present adds no node: the node count and
  the key order are unchanged, every field of the metadata overrides the node's field and
  every other field is kept, \<open>created\<close> is preserved when the metadata has no
  \<open>created\<close> key, and \<open>updated\<close> is the fresh timestamp.
\<close>

theorem addNode_existing:
  assumes "did \<noteq> []" and "map_of (nodes g) did = Some n"
  shows "\<exists>g' n'. addNode did metadata t1 t2 g = Inr g' \<and>
     length (nodes g') = length (nodes g) \<and>
     map fst (nodes g') = map fst (nodes g) \<and>
     edges g' = edges g \<and>
     map_of (nodes g') did = Some n' \<and>
     (\<forall>k. k \<noteq> ''updated'' \<longrightarrow> n' k = (case metadata k of Some v \<Rightarrow> Some v | None \<Rightarrow> n k)) \<and>
     (metadata ''created'' = None \<longrightarrow> n' ''created'' = n ''created'') \<and>
     n' ''updated'' = Some t1 \<and>
     (\<forall>d. d \<noteq> did \<longrightarrow> map_of (nodes g') d = map_of (nodes g) d)"
proof -
  from assms(2) have mem: "did \<in> fst ` set (nodes g)"
    by (metis domI dom_map_of_conv_image_fst)
  let ?n' = "(n ++ metadata)(''updated'' \<mapsto> t1)"
  let ?g' = "g\<lparr>nodes := AList.update did ?n' (nodes g), modified := True\<rparr>"
  have run: "addNode did metadata t1 t2 g = Inr ?g'"
    using assms by (simp add: addNode_def)
  have keys: "map fst (nodes ?g') = map fst (nodes g)"
    using mem by (simp add: update_keys)
  have len: "length (nodes ?g') = length (nodes g)"
    using arg_cong[OF keys, of length] by simp
  have look: "map_of (nodes ?g') did = Some ?n'"
    by (simp add: update_conv')
  have merged: "\<forall>k. k \<noteq> ''updated'' \<longrightarrow> ?n' k = (case metadata k of Some v \<Rightarrow> Some v | None \<Rightarrow> n k)"
    by (auto simp: map_add_def split: option.splits)
  have created: "metadata ''created'' = None \<longrightarrow> ?n' ''created'' = n ''created''"
    by (simp add: map_add_def)
  have others: "\<forall>d. d \<noteq> did \<longrightarrow> map_of (nodes ?g') d = map_of (nodes g) d"
    by (simp add: update_conv')
  show ?thesis
    using run len keys look merged created others by auto
qed

theorem addNode_existing_witness:
  "\<exists>g' n'. addNode ''did:asset:text:a'' [''label'' \<mapsto> ''Alpha''] ''T1'' ''T2'' ex_nodes_ab = Inr g' \<and>
     length (nodes g') = 2 \<and>
     map_of (nodes g') ''did:asset:text:a'' = Some n' \<and>
     n' ''label'' = Some ''Alpha'' \<and> n' ''type'' = Some ''DigitalResource'' \<and>
     n' ''created'' = Some ''T0'' \<and> n' ''updated'' = Some ''T1''"
proof -
  have h: "map_of (nodes ex_nodes_ab) ''did:asset:text:a'' = Some [''did'' \<mapsto> ''did:asset:text:a'', ''type'' \<mapsto> ''DigitalResource'',
        ''label'' \<mapsto> ''a'', ''created'' \<mapsto> ''T0'', ''updated'' \<mapsto> ''T0'']"
    by (simp add: ex_nodes_ab_def)
  have d: "''did:asset:text:a'' \<noteq> []" by simp
  from addNode_existing[OF d h, of "[''label'' \<mapsto> ''Alpha'']" "''T1''" "''T2''"]
  obtain g' n' where
    r: "addNode ''did:asset:text:a'' [''label'' \<mapsto> ''Alpha''] ''T1'' ''T2'' ex_nodes_ab = Inr g'"
    and l: "length (nodes g') = length (nodes ex_nodes_ab)"
    and m: "map_of (nodes g') ''did:asset:text:a'' = Some n'"
    and k: "\<forall>k. k \<noteq> ''updated'' \<longrightarrow> n' k = (case [''label'' \<mapsto> ''Alpha''] k of Some v \<Rightarrow> Some v
         | None \<Rightarrow> [''did'' \<mapsto> ''did:asset:text:a'', ''type'' \<mapsto> ''DigitalResource'',
        ''label'' \<mapsto> ''a'', ''created'' \<mapsto> ''T0'', ''updated'' \<mapsto> ''T0''] k)"
    and u: "n' ''updated'' = Some ''T1''"
    by blast
  have "n' ''label'' = Some ''Alpha''" using k[rule_format, of "''label''"] by simp
  moreover have "n' ''type'' = Some ''DigitalResource''" using k[rule_format, of "''type''"] by simp
  moreover have "n' ''created'' = Some ''T0''" using k[rule_format, of "''created''"] by simp
  moreover have "length (nodes g') = 2" using l by (simp add: ex_nodes_ab_def)
  ultimately show ?thesis using r m u by blast
qed

subsection \<open>Edge uniqueness\<close>

text \<open>The metadata of \<open>addEdge\<close> is spread after \<open>from\<close>, \<open>to\<close> and
  \<open>type\<close>, so it can replace them; \<open>keeps_tuple\<close> says it does not.\<close>

definition keeps_tuple :: "obj \<Rightarrow> string \<Rightarrow> string \<Rightarrow> string \<Rightarrow> bool" where
  "keeps_tuple metadata f t ty =
     (or_else (metadata ''from'') f = f \<and> or_else (metadata ''to'') t = t \<and>
      or_else (metadata ''type'') ty = ty)"

definition edge_tuple :: "edge \<Rightarrow> string \<times> string \<times> string" where
  "edge_tuple e = (efrom e, eto e, etype e)"

definition unique_edges :: "graph \<Rightarrow> bool" where
  "unique_edges g = distinct (map edge_tuple (edges g))"

lemma edge_is_tuple: "edge_is f t ty e \<longleftrightarrow> edge_tuple e = (f, t, ty)"
  by (auto simp: edge_is_def edge_tuple_def)

lemma mk_edge_tuple:
  "keeps_tuple metadata f t ty \<Longrightarrow> edge_tuple (mk_edge f t ty t1 metadata) = (f, t, ty)"
  by (simp add: keeps_tuple_def mk_edge_def edge_tuple_def)

lemma merge_edge_tuple: "edge_tuple (merge_edge old e t2) = edge_tuple e"
  by (simp add: merge_edge_def edge_tuple_def)

lemma findIndex_first:
  "findIndex P xs = Some i \<Longrightarrow> j < i \<Longrightarrow> \<not> P (xs ! j)"
  by (induction xs arbitrary: i j) (auto split: if_splits simp: nth_Cons')

lemma findIndex_update_same:
  "findIndex P xs = Some i \<Longrightarrow> P y \<Longrightarrow> findIndex P (xs[i := y]) = Some i"
  by (induction xs arbitrary: i) (auto split: if_splits)

lemma findIndex_append_new:
  "findIndex P xs = None \<Longrightarrow> P y \<Longrightarrow> findIndex P (xs @ [y]) = Some (length xs)"
  by (induction xs) (auto split: if_splits)

lemma addEdge_cases:
  assumes "addEdge f t ty metadata t1 t2 g = Inr g1"
  shows "has_node g f \<and> has_node g t \<and> ty \<in> set RELATIONSHIP_TYPES \<and> nodes g1 = nodes g \<and>
     ((\<exists>i. findIndex (edge_is f t ty) (edges g) = Some i \<and>
          edges g1 = (edges g)[i := merge_edge (edges g ! i) (mk_edge f t ty t1 metadata) t2]) \<or>
      (findIndex (edge_is f t ty) (edges g) = None \<and>
          edges g1 = edges g @ [mk_edge f t ty t1 metadata]))"
  using assms by (auto simp: addEdge_def Let_def split: if_splits option.splits)

lemma addEdge_present:
  assumes k: "keeps_tuple metadata f t ty" and r: "addEdge f t ty metadata t1 t2 g = Inr g1"
  shows "\<exists>i. findIndex (edge_is f t ty) (edges g1) = Some i"
proof -
  let ?e = "mk_edge f t ty t1 metadata"
  have P: "edge_is f t ty (merge_edge old ?e t2)" for old
    using mk_edge_tuple[OF k] by (simp add: edge_is_tuple merge_edge_tuple)
  have Q: "edge_is f t ty ?e"
    using mk_edge_tuple[OF k] by (simp add: edge_is_tuple)
  from addEdge_cases[OF r] have
    "(\<exists>i. findIndex (edge_is f t ty) (edges g) = Some i \<and>
          edges g1 = (edges g)[i := merge_edge (edges g ! i) ?e t2]) \<or>
      (findIndex (edge_is f t ty) (edges g) = None \<and> edges g1 = edges g @ [?e])"
    by simp
  then show ?thesis
  proof (elim disjE exE conjE)
    fix i assume "findIndex (edge_is f t ty) (edges g) = Some i"
      and e: "edges g1 = (edges g)[i := merge_edge (edges g ! i) ?e t2]"
    then have "findIndex (edge_is f t ty) (edges g1) = Some i"
      using findIndex_update_same[of "edge_is f t ty" "edges g" i "merge_edge (edges g ! i) ?e t2"] P
      by simp
    then show ?thesis by blast
  next
    assume "findIndex (edge_is f t ty) (edges g) = None" and e: "edges g1 = edges g @ [?e]"
    then have "findIndex (edge_is f t ty) (edges g1) = Some (length (edges g))"
      using findIndex_append_new[of "edge_is f t ty" "edges g" ?e] Q by simp
    then show ?thesis by blast
  qed
qed

lemma addEdge_unique:
  assumes k: "keeps_tuple metadata f t ty" and r: "addEdge f t ty metadata t1 t2 g = Inr g1"
    and u: "unique_edges g"
  shows "unique_edges g1"
proof -
  let ?e = "mk_edge f t ty t1 metadata"
  from addEdge_cases[OF r] have
    "(\<exists>i. findIndex (edge_is f t ty) (edges g) = Some i \<and>
          edges g1 = (edges g)[i := merge_edge (edges g ! i) ?e t2]) \<or>
      (findIndex (edge_is f t ty) (edges g) = None \<and> edges g1 = edges g @ [?e])"
    by simp
  then consider
    (upd) i where "findIndex (edge_is f t ty) (edges g) = Some i"
        "edges g1 = (edges g)[i := merge_edge (edges g ! i) ?e t2]"
    | (new) "findIndex (edge_is f t ty) (edges g) = None" "edges g1 = edges g @ [?e]"
    by (elim disjE exE conjE) auto
  then show ?thesis
  proof cases
    case upd
    from findIndex_Some[OF upd(1)] have i: "i < length (edges g)" and m: "edge_is f t ty (edges g ! i)"
      by auto
    have "edge_tuple (merge_edge (edges g ! i) ?e t2) = edge_tuple (edges g ! i)"
      using m mk_edge_tuple[OF k] by (simp add: merge_edge_tuple edge_is_tuple)
    then have "map edge_tuple (edges g1) = map edge_tuple (edges g)"
      using i upd(2) by (simp add: map_update list_update_same_conv)
    then show ?thesis using u by (simp add: unique_edges_def)
  next
    case new
    from new(1) have "\<forall>e \<in> set (edges g). edge_tuple e \<noteq> (f, t, ty)"
      by (simp add: findIndex_None edge_is_tuple)
    then have "(f, t, ty) \<notin> set (map edge_tuple (edges g))" by auto
    then show ?thesis using u new(2) mk_edge_tuple[OF k] by (simp add: unique_edges_def)
  qed
qed

text \<open>
  C7 (as amended).  When the metadata of the two calls leaves \<open>from\<close>, \<open>to\<close>
  and \<open>type\<close> alone, a second \<open>addEdge\<close> with the same (source, target, type)
  succeeds, leaves the number of edges unchanged, rewrites the existing edge in place with
  the new metadata merged over the old properties, and a graph without duplicate
  (source, target, type) tuples stays so.
\<close>

theorem addEdge_twice:
  assumes k1: "keeps_tuple metadata1 f t ty" and k2: "keeps_tuple metadata2 f t ty"
    and r1: "addEdge f t ty metadata1 t1 t2 g = Inr g1"
  shows "\<exists>g2 i. addEdge f t ty metadata2 t3 t4 g1 = Inr g2 \<and>
     length (edges g2) = length (edges g1) \<and>
     findIndex (edge_is f t ty) (edges g1) = Some i \<and>
     edges g2 = (edges g1)[i := merge_edge (edges g1 ! i) (mk_edge f t ty t3 metadata2) t4] \<and>
     (\<forall>k. k \<notin> edge_keys \<and> k \<noteq> ''updated'' \<longrightarrow>
        eprops (edges g2 ! i) k = (case metadata2 k of Some v \<Rightarrow> Some v | None \<Rightarrow> eprops (edges g1 ! i) k)) \<and>
     (unique_edges g \<longrightarrow> unique_edges g1 \<and> unique_edges g2)"
proof -
  from addEdge_present[OF k1 r1] obtain i where i: "findIndex (edge_is f t ty) (edges g1) = Some i"
    by blast
  from findIndex_Some[OF i] have il: "i < length (edges g1)" by simp
  from addEdge_cases[OF r1] have n: "has_node g1 f" "has_node g1 t" "ty \<in> set RELATIONSHIP_TYPES"
    by (auto simp: has_node_def)
  let ?g2 = "g1\<lparr>edges := (edges g1)[i := merge_edge (edges g1 ! i) (mk_edge f t ty t3 metadata2) t4],
                modified := True\<rparr>"
  have r2: "addEdge f t ty metadata2 t3 t4 g1 = Inr ?g2"
    using n i by (simp add: addEdge_def)
  have props: "\<forall>k. k \<notin> edge_keys \<and> k \<noteq> ''updated'' \<longrightarrow>
        eprops (edges ?g2 ! i) k = (case metadata2 k of Some v \<Rightarrow> Some v | None \<Rightarrow> eprops (edges g1 ! i) k)"
    using il by (auto simp: merge_edge_def mk_edge_def map_add_def restrict_map_def split: option.splits)
  have uniq: "unique_edges g \<longrightarrow> unique_edges g1 \<and> unique_edges ?g2"
    using addEdge_unique[OF k1 r1] addEdge_unique[OF k2 r2] by blast
  show ?thesis using r2 i props uniq by auto
qed

theorem addEdge_twice_witness:
  "\<exists>g1 g2. addEdge ''did:asset:text:a'' ''did:asset:text:b'' ''used'' [''note'' \<mapsto> ''x''] ''T1'' ''T2'' ex_nodes_ab = Inr g1 \<and>
     addEdge ''did:asset:text:a'' ''did:asset:text:b'' ''used'' [''weight'' \<mapsto> ''7''] ''T3'' ''T4'' g1 = Inr g2 \<and>
     length (edges g1) = 1 \<and> length (edges g2) = 1 \<and>
     eprops (edges g2 ! 0) ''note'' = Some ''x'' \<and> eprops (edges g2 ! 0) ''weight'' = Some ''7'' \<and>
     unique_edges g2"
proof -
  let ?a = "''did:asset:text:a''" and ?b = "''did:asset:text:b''"
  let ?g1 = "ex_nodes_ab\<lparr>edges := [mk_edge ?a ?b ''used'' ''T1'' [''note'' \<mapsto> ''x'']], modified := True\<rparr>"
  have r1: "addEdge ?a ?b ''used'' [''note'' \<mapsto> ''x''] ''T1'' ''T2'' ex_nodes_ab = Inr ?g1"
    by (simp add: addEdge_def has_node_def ex_nodes_ab_def RELATIONSHIP_TYPES_def)
  have k1: "keeps_tuple [''note'' \<mapsto> ''x''] ?a ?b ''used''"
    by (simp add: keeps_tuple_def or_else_def)
  have k2: "keeps_tuple [''weight'' \<mapsto> ''7''] ?a ?b ''used''"
    by (simp add: keeps_tuple_def or_else_def)
  have u: "unique_edges ex_nodes_ab" by (simp add: unique_edges_def ex_nodes_ab_def)
  from addEdge_twice[OF k1 k2 r1, of "''T3''" "''T4''"] obtain g2 i where
    r2: "addEdge ?a ?b ''used'' [''weight'' \<mapsto> ''7''] ''T3'' ''T4'' ?g1 = Inr g2"
    and l: "length (edges g2) = length (edges ?g1)"
    and i: "findIndex (edge_is ?a ?b ''used'') (edges ?g1) = Some i"
    and p: "\<forall>k. k \<notin> edge_keys \<and> k \<noteq> ''updated'' \<longrightarrow>
        eprops (edges g2 ! i) k = (case [''weight'' \<mapsto> ''7''] k of Some v \<Rightarrow> Some v | None \<Rightarrow> eprops (edges ?g1 ! i) k)"
    and q: "unique_edges ex_nodes_ab \<longrightarrow> unique_edges ?g1 \<and> unique_edges g2"
    by blast
  from i have i0: "i = 0" by (simp add: edge_is_def mk_edge_def or_else_def)
  have "eprops (edges g2 ! 0) ''note'' = Some ''x''"
    using p[rule_format, of "''note''"] i0 by (simp add: edge_keys_def mk_edge_def)
  moreover have "eprops (edges g2 ! 0) ''weight'' = Some ''7''"
    using p[rule_format, of "''weight''"] i0 by (simp add: edge_keys_def)
  moreover have "length (edges g2) = 1" using l by simp
  moreover have "unique_edges g2" using q u by simp
  ultimately show ?thesis using r1 r2 by auto
qed

text \<open>
  C7 as stated fails: metadata carrying a \<open>type\<close> key replaces the type that the
  duplicate search looks for, so the second identical call appends a second edge, and the
  graph holds two edges with the same tuple.
\<close>

theorem addEdge_twice_counterexample:
  "\<not> isl (addEdge ''did:asset:text:a'' ''did:asset:text:b'' ''used'' [''type'' \<mapsto> ''contains''] ''T1'' ''T2'' ex_nodes_ab) \<and>
   \<not> isl (addEdge ''did:asset:text:a'' ''did:asset:text:b'' ''used'' [''type'' \<mapsto> ''contains''] ''T3'' ''T4''
      (projr (addEdge ''did:asset:text:a'' ''did:asset:text:b'' ''used'' [''type'' \<mapsto> ''contains''] ''T1'' ''T2'' ex_nodes_ab))) \<and>
   length (edges (projr (addEdge ''did:asset:text:a'' ''did:asset:text:b'' ''used'' [''type'' \<mapsto> ''contains''] ''T1'' ''T2'' ex_nodes_ab))) = 1 \<and>
   map edge_tuple (edges (projr (addEdge ''did:asset:text:a'' ''did:asset:text:b'' ''used'' [''type'' \<mapsto> ''contains''] ''T3'' ''T4''
      (projr (addEdge ''did:asset:text:a'' ''did:asset:text:b'' ''used'' [''type'' \<mapsto> ''contains''] ''T1'' ''T2'' ex_nodes_ab))))) =
     [(''did:asset:text:a'', ''did:asset:text:b'', ''contains''), (''did:asset:text:a'', ''did:asset:text:b'', ''contains'')]"
  by (simp add: addEdge_def has_node_def ex_nodes_ab_def RELATIONSHIP_TYPES_def mk_edge_def
      or_else_def edge_is_def edge_tuple_def)

section \<open>Path search\<close>

text \<open>
  \<open>_dfs\<close> mutates three objects shared by all recursive calls: the \<open>visited\<close>
  set, the current \<open>path\<close> and the result array \<open>paths\<close>.  They are the
  search state, threaded through the loop over the outgoing edges.  \<open>depth\<close> is an
  integer; \<open>relationshipTypes\<close> is \<open>None\<close> for \<open>null\<close>.
\<close>

record dfs_state =
  visited :: "string list"
  path :: "string list"
  paths :: "string list list"

definition set_add :: "string \<Rightarrow> string list \<Rightarrow> string list" where
  "set_add x xs = (if x \<in> set xs then xs else xs @ [x])"

definition type_allowed :: "string list option \<Rightarrow> string \<Rightarrow> bool" where
  "type_allowed relationshipTypes ty =
     (case relationshipTypes of None \<Rightarrow> True | Some ts \<Rightarrow> ty \<in> set ts)"

function dfs :: "graph \<Rightarrow> string \<Rightarrow> string \<Rightarrow> int \<Rightarrow> string list option \<Rightarrow> dfs_state \<Rightarrow> dfs_state" where
  "dfs g current target depth relationshipTypes s =
     (if depth < 0 then s
      else
        let s1 = s\<lparr>visited := set_add current (visited s), path := path s @ [current]\<rparr>;
            s2 = (if current = target then s1\<lparr>paths := paths s1 @ [path s1]\<rparr>
                  else fold (\<lambda>e st.
                          if eto e \<notin> set (visited st) \<and> type_allowed relationshipTypes (etype e)
                          then dfs g (eto e) target (depth - 1) relationshipTypes st
                          else st)
                        (getEdges g current Outgoing) s1)
        in s2\<lparr>path := butlast (path s2), visited := removeAll current (visited s2)\<rparr>)"
  by pat_completeness auto
termination
  by (relation "measure (\<lambda>(g, current, target, depth, relationshipTypes, s). nat (depth + 1))") auto

definition findPaths :: "graph \<Rightarrow> string \<Rightarrow> string \<Rightarrow> int option \<Rightarrow> string list option \<Rightarrow> string list list" where
  "findPaths g startDID endDID maxDepthOpt relationshipTypes =
     (let maxDepth = (case maxDepthOpt of None \<Rightarrow> 5 | Some d \<Rightarrow> if d = 0 then 5 else d) in
      if \<not> has_node g startDID \<or> \<not> has_node g endDID then []
      else paths (dfs g startDID endDID maxDepth relationshipTypes
                    \<lparr>visited = [], path = [], paths = []\<rparr>))"


definition ex_cycle :: graph where
  "ex_cycle = \<lparr>nodes = [(''A'', [''did'' \<mapsto> ''A'']), (''B'', [''did'' \<mapsto> ''B'']), (''C'', [''did'' \<mapsto> ''C''])],
     edges = [\<lparr>efrom = ''A'', eto = ''B'', etype = ''used'', ecreated = ''T'', eprops = Map.empty\<rparr>,
              \<lparr>efrom = ''B'', eto = ''A'', etype = ''uses'', ecreated = ''T'', eprops = Map.empty\<rparr>,
              \<lparr>efrom = ''B'', eto = ''C'', etype = ''wasGeneratedBy'', ecreated = ''T'', eprops = Map.empty\<rparr>,
              \<lparr>efrom = ''A'', eto = ''C'', etype = ''contains'', ecreated = ''T'', eprops = Map.empty\<rparr>],
     provData = None, modified = True\<rparr>"

text \<open>What one call of \<open>dfs\<close> may do to the search state: it restores \<open>visited\<close>
  and \<open>path\<close> and appends paths without repeated nodes.\<close>

definition dfs_extends :: "dfs_state \<Rightarrow> dfs_state \<Rightarrow> bool" where
  "dfs_extends s s' =
     (visited s' = visited s \<and> path s' = path s \<and>
      (\<exists>new. paths s' = paths s @ new \<and> (\<forall>p \<in> set new. distinct p)))"

definition dfs_ok :: "dfs_state \<Rightarrow> bool" where
  "dfs_ok s = (distinct (path s) \<and> set (path s) \<subseteq> set (visited s))"

lemma dfs_extends_refl: "dfs_extends s s"
  by (simp add: dfs_extends_def)

lemma dfs_extends_trans:
  assumes "dfs_extends a b" and "dfs_extends b c"
  shows "dfs_extends a c"
proof -
  from assms(1) obtain n1 where 1: "visited b = visited a" "path b = path a"
    "paths b = paths a @ n1" "\<forall>p \<in> set n1. distinct p"
    by (auto simp: dfs_extends_def)
  from assms(2) obtain n2 where 2: "visited c = visited b" "path c = path b"
    "paths c = paths b @ n2" "\<forall>p \<in> set n2. distinct p"
    by (auto simp: dfs_extends_def)
  have "paths c = paths a @ (n1 @ n2)" using 1 2 by simp
  moreover have "\<forall>p \<in> set (n1 @ n2). distinct p" using 1 2 by auto
  ultimately show ?thesis using 1 2 unfolding dfs_extends_def by metis
qed

lemma dfs_ok_extends: "dfs_ok a \<Longrightarrow> dfs_extends a b \<Longrightarrow> dfs_ok b"
  by (simp add: dfs_ok_def dfs_extends_def)

lemma fold_dfs_extends:
  assumes step: "\<And>e st. e \<in> set es \<Longrightarrow> dfs_ok st \<Longrightarrow> dfs_extends st (f e st)"
    and "dfs_ok s0"
  shows "dfs_extends s0 (fold f es s0)"
  using assms
proof (induction es arbitrary: s0)
  case Nil
  then show ?case by (simp add: dfs_extends_refl)
next
  case (Cons e es)
  have a: "dfs_extends s0 (f e s0)" using Cons.prems by simp
  then have ok: "dfs_ok (f e s0)" using Cons.prems(2) dfs_ok_extends by blast
  have "dfs_extends (f e s0) (fold f es (f e s0))"
    using Cons.IH[of "f e s0"] Cons.prems(1) ok by simp
  with a show ?case using dfs_extends_trans by simp
qed

lemma dfs_restores:
  "dfs_ok s \<Longrightarrow> current \<notin> set (visited s) \<Longrightarrow>
   dfs_extends s (dfs g current target depth relationshipTypes s)"
proof (induction g current target depth relationshipTypes s rule: dfs.induct)
  case (1 g current target depth relationshipTypes s)
  show ?case
  proof (cases "depth < 0")
    case True
    then show ?thesis by (simp add: dfs_extends_refl)
  next
    case False
    define s1 where "s1 = s\<lparr>visited := set_add current (visited s), path := path s @ [current]\<rparr>"
    have v1: "visited s1 = visited s @ [current]" and p1: "path s1 = path s @ [current]"
      and ps1: "paths s1 = paths s"
      using "1.prems"(2) by (simp_all add: s1_def set_add_def)
    have cur_path: "current \<notin> set (path s)"
      using "1.prems" by (auto simp: dfs_ok_def)
    have ok1: "dfs_ok s1"
      using "1.prems"(1) cur_path by (auto simp: dfs_ok_def v1 p1)
    define f where "f = (\<lambda>(e::edge) st.
        if eto e \<notin> set (visited st) \<and> type_allowed relationshipTypes (etype e)
        then dfs g (eto e) target (depth - 1) relationshipTypes st else st)"
    define s2 where "s2 = (if current = target then s1\<lparr>paths := paths s1 @ [path s1]\<rparr>
        else fold f (getEdges g current Outgoing) s1)"
    have res: "dfs g current target depth relationshipTypes s =
        s2\<lparr>path := butlast (path s2), visited := removeAll current (visited s2)\<rparr>"
      using False by (simp add: s1_def s2_def f_def Let_def)
    have ext: "dfs_extends s1 s2"
    proof (cases "current = target")
      case True
      have "distinct (path s1)" using ok1 by (simp add: dfs_ok_def)
      then show ?thesis using True by (simp add: s2_def dfs_extends_def)
    next
      case ne: False
      have step: "dfs_extends st (f e st)"
        if "e \<in> set (getEdges g current Outgoing)" and "dfs_ok st" for e st
      proof (cases "eto e \<notin> set (visited st) \<and> type_allowed relationshipTypes (etype e)")
        case True
        then have "dfs_extends st (dfs g (eto e) target (depth - 1) relationshipTypes st)"
          using "1.IH"[OF False s1_def ne that(1) True that(2)] by simp
        then show ?thesis using True by (simp add: f_def)
      next
        case False
        then show ?thesis by (auto simp: f_def dfs_extends_refl)
      qed
      show ?thesis
        using fold_dfs_extends[of "getEdges g current Outgoing" f s1, OF step ok1] ne
        by (simp add: s2_def)
    qed
    then obtain new where n: "visited s2 = visited s1" "path s2 = path s1"
      "paths s2 = paths s1 @ new" "\<forall>p \<in> set new. distinct p"
      by (auto simp: dfs_extends_def)
    have "removeAll current (visited s @ [current]) = visited s"
      using "1.prems"(2) by simp
    then show ?thesis
      unfolding res dfs_extends_def using n v1 p1 ps1 by auto
  qed
qed

text \<open>
  C6.  \<open>dfs\<close> is a total function (its recursion descends on \<open>depth\<close>, whatever
  the graph), so \<open>findPaths\<close> returns on every graph, start, target and depth bound,
  and no node occurs twice in a path it returns.
\<close>

theorem findPaths_simple:
  "\<forall>p \<in> set (findPaths g startDID endDID maxDepth relationshipTypes). distinct p"
proof -
  let ?s0 = "\<lparr>visited = [], path = [], paths = []\<rparr>"
  have "dfs_extends ?s0 (dfs g startDID endDID d relationshipTypes ?s0)" for d
    by (rule dfs_restores) (simp_all add: dfs_ok_def)
  then have "\<forall>p \<in> set (paths (dfs g startDID endDID d relationshipTypes ?s0)). distinct p" for d
    by (auto simp: dfs_extends_def)
  then show ?thesis
    by (simp add: findPaths_def Let_def)
qed

theorem findPaths_simple_witness:
  "findPaths ex_cycle ''A'' ''C'' (Some 5) None = [[''A'', ''B'', ''C''], [''A'', ''C'']] \<and>
   distinct [''A'', ''B'', ''C''] \<and> distinct [''A'', ''C'']"
proof -
  have e: "findPaths ex_cycle ''A'' ''C'' (Some 5) None = [[''A'', ''B'', ''C''], [''A'', ''C'']]"
    by code_simp
  from findPaths_simple[of ex_cycle "''A''" "''C''" "Some 5" None]
  show ?thesis unfolding e by simp
qed

section \<open>PROV projection\<close>

definition is_agent_type :: "string option \<Rightarrow> bool" where
  "is_agent_type ty =
     (ty = Some AGENT \<or> ty = Some PERSON \<or> ty = Some ORGANIZATION \<or> ty = Some SOFTWARE)"

definition empty_prov :: prov where
  "empty_prov = \<lparr>entity = [], activity = [], agent = []\<rparr>"

text \<open>The body of the loop over \<open>this.nodes.entries()\<close>.\<close>

definition prov_add_node :: "string \<times> obj \<Rightarrow> prov \<Rightarrow> prov" where
  "prov_add_node dn p =
     (case dn of (did, node) \<Rightarrow>
        if node ''type'' = Some ACTIVITY then
          p\<lparr>activity := AList.update did
               \<lparr>pa_startedAtTime = js_or (node ''startTime'') (node ''created''),
                pa_endedAtTime = js_or (node ''endTime'') (node ''updated''),
                pa_label = js_or (node ''label'') (Some did),
                pa_used = None, pa_wasAssociatedWith = None\<rparr> (activity p)\<rparr>
        else if is_agent_type (node ''type'') then
          p\<lparr>agent := AList.update did
               \<lparr>pg_type = node ''type'', pg_label = js_or (node ''label'') (Some did)\<rparr> (agent p)\<rparr>
        else
          p\<lparr>entity := AList.update did
               \<lparr>pe_type = node ''type'', pe_label = js_or (node ''label'') (Some did),
                pe_generatedAtTime = node ''created'',
                pe_wasDerivedFrom = None, pe_wasGeneratedBy = None, pe_wasAttributedTo = None,
                pe_asset = []\<rparr> (entity p)\<rparr>)"

definition DERIVATION_TYPES :: "string list" where
  "DERIVATION_TYPES = [''wasDerivedFrom'', ''wasRevisionOf'', ''wasQuotedFrom'', ''wasInfluencedBy'']"

text \<open>\<open>if (!o[key]) o[key] = []; o[key].push(x)\<close> on an optional array and on the
  \<open>asset:\<close> keys of an entity.\<close>

definition push_opt :: "string list option \<Rightarrow> string \<Rightarrow> string list option" where
  "push_opt l x = (case l of None \<Rightarrow> Some [x] | Some xs \<Rightarrow> Some (xs @ [x]))"

definition push_asset :: "string \<Rightarrow> string \<Rightarrow> (string \<times> string list) list \<Rightarrow> (string \<times> string list) list" where
  "push_asset ty x al =
     (case map_of al ty of None \<Rightarrow> AList.update ty [x] al
      | Some xs \<Rightarrow> AList.update ty (xs @ [x]) al)"

definition has_key :: "(string \<times> 'a) list \<Rightarrow> string \<Rightarrow> bool" where
  "has_key al k = (map_of al k \<noteq> None)"

text \<open>The body of the loop over \<open>this.edges\<close>: the \<open>switch\<close> on the edge type, a
  \<open>continue\<close> being the unchanged document.\<close>

definition prov_add_edge :: "(string \<times> obj) list \<Rightarrow> edge \<Rightarrow> prov \<Rightarrow> prov" where
  "prov_add_edge ns e p =
     (if etype e \<in> set DERIVATION_TYPES then
        (if \<not> has_key (entity p) (eto e) then p
         else p\<lparr>entity := AList.map_entry (eto e)
                  (\<lambda>ent. ent\<lparr>pe_wasDerivedFrom := push_opt (pe_wasDerivedFrom ent) (efrom e)\<rparr>) (entity p)\<rparr>)
      else if etype e = ''wasGeneratedBy'' then
        (if \<not> has_key (entity p) (efrom e) \<or> \<not> has_key (activity p) (eto e) then p
         else p\<lparr>entity := AList.map_entry (efrom e)
                  (\<lambda>ent. ent\<lparr>pe_wasGeneratedBy := Some (eto e)\<rparr>) (entity p)\<rparr>)
      else if etype e = ''used'' then
        (if \<not> has_key (activity p) (efrom e) \<or> \<not> has_key (entity p) (eto e) then p
         else p\<lparr>activity := AList.map_entry (efrom e)
                  (\<lambda>act. act\<lparr>pa_used := push_opt (pa_used act) (eto e)\<rparr>) (activity p)\<rparr>)
      else if etype e = ''wasAttributedTo'' then
        (if \<not> has_key (entity p) (efrom e) \<or> \<not> has_key (agent p) (eto e) then p
         else p\<lparr>entity := AList.map_entry (efrom e)
                  (\<lambda>ent. ent\<lparr>pe_wasAttributedTo := Some (eto e)\<rparr>) (entity p)\<rparr>)
      else if etype e = ''wasAssociatedWith'' then
        (if \<not> has_key (activity p) (efrom e) \<or> \<not> has_key (agent p) (eto e) then p
         else p\<lparr>activity := AList.map_entry (efrom e)
                  (\<lambda>act. act\<lparr>pa_wasAssociatedWith := Some (eto e)\<rparr>) (activity p)\<rparr>)
      else
        (let fromType = (case map_of ns (efrom e) of None \<Rightarrow> None | Some n \<Rightarrow> n ''type'') in
         if fromType = Some RESOURCE \<or> fromType = Some MODEL then
           (if \<not> has_key (entity p) (efrom e) then p
            else p\<lparr>entity := AList.map_entry (efrom e)
                     (\<lambda>ent. ent\<lparr>pe_asset := push_asset (etype e) (eto e) (pe_asset ent)\<rparr>) (entity p)\<rparr>)
         else p))"

text \<open>The document \<open>toPROV\<close> builds when it does not answer from the cache.\<close>

definition project :: "(string \<times> obj) list \<Rightarrow> edge list \<Rightarrow> prov" where
  "project ns es = fold (prov_add_edge ns) es (fold prov_add_node ns empty_prov)"

text \<open>\<open>toPROV()\<close>: the document returned and the new state.\<close>

definition toPROV :: "graph \<Rightarrow> prov \<times> graph" where
  "toPROV g =
     (case provData g of
        Some cached \<Rightarrow>
          if \<not> modified g then (cached, g)
          else (project (nodes g) (edges g),
                g\<lparr>provData := Some (project (nodes g) (edges g)), modified := False\<rparr>)
      | None \<Rightarrow> (project (nodes g) (edges g),
                g\<lparr>provData := Some (project (nodes g) (edges g)), modified := False\<rparr>))"

text \<open>The run \<open>addNode(a); toPROV(); addNode(b); removeEdge(a, b); toPROV()\<close> on a new
  graph.\<close>

definition stale_run :: graph where
  "stale_run =
     removeEdge ''did:asset:text:a'' ''did:asset:text:b'' None
       (projr (addNode ''did:asset:text:b'' Map.empty ''T3'' ''T4''
          (snd (toPROV (projr (addNode ''did:asset:text:a'' Map.empty ''T1'' ''T2'' new_graph))))))"

text \<open>
  C5.  The claim does not hold of the code: \<open>removeEdge\<close> assigns
  \<open>modified\<close> instead of raising it, so a \<open>removeEdge\<close> that removes nothing
  clears the flag set by the \<open>addNode\<close> before it.  After the run above the graph
  holds both nodes, \<open>toPROV\<close> answers with the cached document of the one-node graph,
  and a graph with the same nodes and edges but no cache answers with another document.
\<close>

theorem toPROV_stale:
  "map fst (nodes stale_run) = [''did:asset:text:a'', ''did:asset:text:b''] \<and>
   map fst (entity (fst (toPROV stale_run))) = [''did:asset:text:a''] \<and>
   map fst (entity (project (nodes stale_run) (edges stale_run))) = [''did:asset:text:a'', ''did:asset:text:b''] \<and>
   fst (toPROV stale_run) \<noteq> fst (toPROV (stale_run\<lparr>provData := None\<rparr>))"
proof -
  have n: "map fst (nodes stale_run) = [''did:asset:text:a'', ''did:asset:text:b'']"
    by (simp add: stale_run_def removeEdge_def addNode_def toPROV_def new_graph_def truthy_def Let_def)
  have c: "map fst (entity (fst (toPROV stale_run))) = [''did:asset:text:a'']"
    by (simp add: stale_run_def removeEdge_def addNode_def toPROV_def new_graph_def truthy_def Let_def
        project_def prov_add_node_def empty_prov_def ACTIVITY_def RESOURCE_def is_agent_type_def
        AGENT_def PERSON_def ORGANIZATION_def SOFTWARE_def js_or_str_def)
  have p: "map fst (entity (project (nodes stale_run) (edges stale_run))) = [''did:asset:text:a'', ''did:asset:text:b'']"
    by (simp add: stale_run_def removeEdge_def addNode_def toPROV_def new_graph_def truthy_def Let_def
        project_def prov_add_node_def empty_prov_def ACTIVITY_def RESOURCE_def is_agent_type_def
        AGENT_def PERSON_def ORGANIZATION_def SOFTWARE_def js_or_str_def)
  have f: "fst (toPROV (stale_run\<lparr>provData := None\<rparr>)) = project (nodes stale_run) (edges stale_run)"
    by (simp add: toPROV_def)
  have "fst (toPROV stale_run) \<noteq> fst (toPROV (stale_run\<lparr>provData := None\<rparr>))"
    using c p unfolding f by auto
  with n c p show ?thesis by simp
qed

section \<open>Reverse projection\<close>

text \<open>
  \<open>fromPROV(prov)\<close> builds a new graph with \<open>addNode\<close> and \<open>addEdge\<close>; an exception
  of either ends the import.  All clock reads of one import give \<open>now\<close>.  The
  metadata of an imported activity has its \<open>startTime\<close> and \<open>endTime\<close> keys only
  when the document has the times.
\<close>

definition import_entity :: "string \<Rightarrow> string \<times> prov_entity \<Rightarrow> error + graph \<Rightarrow> error + graph" where
  "import_entity now de acc =
     (case acc of
        Inl err \<Rightarrow> Inl err
      | Inr g \<Rightarrow>
          addNode (fst de)
            [''type'' \<mapsto> js_or_str (pe_type (snd de)) RESOURCE,
             ''label'' \<mapsto> js_or_str (pe_label (snd de)) (last (js_split CHR '':'' (fst de))),
             ''created'' \<mapsto> js_or_str (pe_generatedAtTime (snd de)) now]
            now now g)"

definition opt_field :: "string \<Rightarrow> string option \<Rightarrow> obj" where
  "opt_field k v = (case v of None \<Rightarrow> Map.empty | Some s \<Rightarrow> [k \<mapsto> s])"

definition import_activity :: "string \<Rightarrow> string \<times> prov_activity \<Rightarrow> error + graph \<Rightarrow> error + graph" where
  "import_activity now da acc =
     (case acc of
        Inl err \<Rightarrow> Inl err
      | Inr g \<Rightarrow>
          (let created = js_or_str (pa_startedAtTime (snd da)) now;
               updated = js_or_str (pa_endedAtTime (snd da)) created
           in addNode (fst da)
                ([''type'' \<mapsto> ACTIVITY,
                  ''label'' \<mapsto> js_or_str (pa_label (snd da)) (last (js_split CHR '':'' (fst da))),
                  ''created'' \<mapsto> created,
                  ''updated'' \<mapsto> updated]
                 ++ opt_field ''startTime'' (pa_startedAtTime (snd da))
                 ++ opt_field ''endTime'' (pa_endedAtTime (snd da)))
                now now g))"

definition import_agent :: "string \<Rightarrow> string \<times> prov_agent \<Rightarrow> error + graph \<Rightarrow> error + graph" where
  "import_agent now dg acc =
     (case acc of
        Inl err \<Rightarrow> Inl err
      | Inr g \<Rightarrow>
          addNode (fst dg)
            [''type'' \<mapsto> js_or_str (pg_type (snd dg)) AGENT,
             ''label'' \<mapsto> js_or_str (pg_label (snd dg)) (last (js_split CHR '':'' (fst dg)))]
            now now g)"

text \<open>\<open>if (graph.nodes.has(x)) graph.addEdge(from, to, type)\<close>.\<close>

definition link_if :: "string \<Rightarrow> string \<times> string \<times> string \<times> string \<Rightarrow> error + graph \<Rightarrow> error + graph" where
  "link_if now req acc =
     (case acc of
        Inl err \<Rightarrow> Inl err
      | Inr g \<Rightarrow>
          (case req of (x, f, t, ty) \<Rightarrow>
             if has_node g x then addEdge f t ty Map.empty now now g else Inr g))"

definition import_entity_relations ::
  "string \<Rightarrow> string \<times> prov_entity \<Rightarrow> error + graph \<Rightarrow> error + graph" where
  "import_entity_relations now de acc =
     (let did = fst de; ent = snd de;
          a1 = (case pe_wasDerivedFrom ent of
                  None \<Rightarrow> acc
                | Some sources \<Rightarrow>
                    fold (\<lambda>source. link_if now (source, source, did, ''wasDerivedFrom'')) sources acc);
          a2 = (case pe_wasGeneratedBy ent of
                  None \<Rightarrow> a1
                | Some x \<Rightarrow> if x \<noteq> [] then link_if now (x, did, x, ''wasGeneratedBy'') a1 else a1);
          a3 = (case pe_wasAttributedTo ent of
                  None \<Rightarrow> a2
                | Some x \<Rightarrow> if x \<noteq> [] then link_if now (x, did, x, ''wasAttributedTo'') a2 else a2)
      in fold (\<lambda>kv a. fold (\<lambda>target. link_if now (target, did, target, fst kv)) (snd kv) a)
           (pe_asset ent) a3)"

definition import_activity_relations ::
  "string \<Rightarrow> string \<times> prov_activity \<Rightarrow> error + graph \<Rightarrow> error + graph" where
  "import_activity_relations now da acc =
     (let did = fst da; act = snd da;
          a1 = (case pa_used act of
                  None \<Rightarrow> acc
                | Some usedEntities \<Rightarrow>
                    fold (\<lambda>entity. link_if now (entity, did, entity, ''used'')) usedEntities acc)
      in (case pa_wasAssociatedWith act of
            None \<Rightarrow> a1
          | Some x \<Rightarrow> if x \<noteq> [] then link_if now (x, did, x, ''wasAssociatedWith'') a1 else a1))"

definition fromPROV :: "string \<Rightarrow> prov \<Rightarrow> error + graph" where
  "fromPROV now p =
     fold (import_activity_relations now) (activity p)
       (fold (import_entity_relations now) (entity p)
          (fold (import_agent now) (agent p)
             (fold (import_activity now) (activity p)
                (fold (import_entity now) (entity p) (Inr new_graph)))))"

subsection \<open>Well-formed documents\<close>

definition SPECIAL_TYPES :: "string list" where
  "SPECIAL_TYPES = DERIVATION_TYPES @ [''wasGeneratedBy'', ''used'', ''wasAttributedTo'', ''wasAssociatedWith'']"

definition prov_keys :: "prov \<Rightarrow> string list" where
  "prov_keys p = map fst (entity p) @ map fst (activity p) @ map fst (agent p)"

definition wf_targets :: "string list \<Rightarrow> string list \<Rightarrow> bool" where
  "wf_targets keys ts = (ts \<noteq> [] \<and> distinct ts \<and> set ts \<subseteq> set keys)"

definition wf_entity :: "prov \<Rightarrow> prov_entity \<Rightarrow> bool" where
  "wf_entity p ent =
     (truthy (pe_type ent) \<and> pe_type ent \<noteq> Some ACTIVITY \<and> \<not> is_agent_type (pe_type ent) \<and>
      truthy (pe_label ent) \<and> truthy (pe_generatedAtTime ent) \<and>
      (case pe_wasDerivedFrom ent of None \<Rightarrow> True | Some ss \<Rightarrow> wf_targets (prov_keys p) ss) \<and>
      (case pe_wasGeneratedBy ent of None \<Rightarrow> True | Some a \<Rightarrow> has_key (activity p) a) \<and>
      (case pe_wasAttributedTo ent of None \<Rightarrow> True | Some a \<Rightarrow> has_key (agent p) a) \<and>
      distinct (map fst (pe_asset ent)) \<and>
      list_all (\<lambda>kv. fst kv \<in> set RELATIONSHIP_TYPES \<and> fst kv \<notin> set SPECIAL_TYPES \<and>
                    wf_targets (prov_keys p) (snd kv)) (pe_asset ent) \<and>
      (pe_asset ent = [] \<or> pe_type ent = Some RESOURCE \<or> pe_type ent = Some MODEL))"

definition wf_activity :: "prov \<Rightarrow> prov_activity \<Rightarrow> bool" where
  "wf_activity p act =
     (truthy (pa_startedAtTime act) \<and> truthy (pa_endedAtTime act) \<and> truthy (pa_label act) \<and>
      (case pa_used act of None \<Rightarrow> True | Some es \<Rightarrow> wf_targets (map fst (entity p)) es) \<and>
      (case pa_wasAssociatedWith act of None \<Rightarrow> True | Some a \<Rightarrow> has_key (agent p) a))"

definition wf_agent :: "prov_agent \<Rightarrow> bool" where
  "wf_agent ag = (is_agent_type (pg_type ag) \<and> truthy (pg_label ag))"

definition wf_prov :: "prov \<Rightarrow> bool" where
  "wf_prov p =
     (distinct (prov_keys p) \<and> [] \<notin> set (prov_keys p) \<and>
      list_all (\<lambda>de. wf_entity p (snd de)) (entity p) \<and>
      list_all (\<lambda>da. wf_activity p (snd da)) (activity p) \<and>
      list_all (\<lambda>dg. wf_agent (snd dg)) (agent p))"

text \<open>The node \<open>addNode\<close> stores for a new identifier.\<close>

definition new_node :: "string \<Rightarrow> obj \<Rightarrow> string \<Rightarrow> string \<Rightarrow> obj" where
  "new_node did metadata t1 t2 =
     [''did'' \<mapsto> did,
      ''type'' \<mapsto> js_or_str (metadata ''type'') RESOURCE,
      ''label'' \<mapsto> js_or_str (metadata ''label'') (last (js_split CHR '':'' did)),
      ''created'' \<mapsto> t1,
      ''updated'' \<mapsto> t2] ++ metadata"

definition entity_md :: "string \<Rightarrow> string \<times> prov_entity \<Rightarrow> obj" where
  "entity_md now de =
     [''type'' \<mapsto> js_or_str (pe_type (snd de)) RESOURCE,
      ''label'' \<mapsto> js_or_str (pe_label (snd de)) (last (js_split CHR '':'' (fst de))),
      ''created'' \<mapsto> js_or_str (pe_generatedAtTime (snd de)) now]"

definition activity_md :: "string \<Rightarrow> string \<times> prov_activity \<Rightarrow> obj" where
  "activity_md now da =
     [''type'' \<mapsto> ACTIVITY,
      ''label'' \<mapsto> js_or_str (pa_label (snd da)) (last (js_split CHR '':'' (fst da))),
      ''created'' \<mapsto> js_or_str (pa_startedAtTime (snd da)) now,
      ''updated'' \<mapsto> js_or_str (pa_endedAtTime (snd da)) (js_or_str (pa_startedAtTime (snd da)) now)]
     ++ opt_field ''startTime'' (pa_startedAtTime (snd da))
     ++ opt_field ''endTime'' (pa_endedAtTime (snd da))"

definition agent_md :: "string \<times> prov_agent \<Rightarrow> obj" where
  "agent_md dg =
     [''type'' \<mapsto> js_or_str (pg_type (snd dg)) AGENT,
      ''label'' \<mapsto> js_or_str (pg_label (snd dg)) (last (js_split CHR '':'' (fst dg)))]"

text \<open>The edges an import asks for, in order: the node tested, source, target, type.\<close>

definition entity_reqs :: "string \<times> prov_entity \<Rightarrow> (string \<times> string \<times> string \<times> string) list" where
  "entity_reqs de =
     (case pe_wasDerivedFrom (snd de) of
        None \<Rightarrow> [] | Some sources \<Rightarrow> map (\<lambda>source. (source, source, fst de, ''wasDerivedFrom'')) sources)
     @ (case pe_wasGeneratedBy (snd de) of
          None \<Rightarrow> [] | Some x \<Rightarrow> if x \<noteq> [] then [(x, fst de, x, ''wasGeneratedBy'')] else [])
     @ (case pe_wasAttributedTo (snd de) of
          None \<Rightarrow> [] | Some x \<Rightarrow> if x \<noteq> [] then [(x, fst de, x, ''wasAttributedTo'')] else [])
     @ concat (map (\<lambda>kv. map (\<lambda>target. (target, fst de, target, fst kv)) (snd kv)) (pe_asset (snd de)))"

definition activity_reqs :: "string \<times> prov_activity \<Rightarrow> (string \<times> string \<times> string \<times> string) list" where
  "activity_reqs da =
     (case pa_used (snd da) of
        None \<Rightarrow> [] | Some es \<Rightarrow> map (\<lambda>entity. (entity, fst da, entity, ''used'')) es)
     @ (case pa_wasAssociatedWith (snd da) of
          None \<Rightarrow> [] | Some x \<Rightarrow> if x \<noteq> [] then [(x, fst da, x, ''wasAssociatedWith'')] else [])"

definition req_edge :: "string \<Rightarrow> string \<times> string \<times> string \<times> string \<Rightarrow> edge" where
  "req_edge now req = (case req of (x, f, t, ty) \<Rightarrow> mk_edge f t ty now Map.empty)"

definition req_tuple :: "string \<times> string \<times> string \<times> string \<Rightarrow> string \<times> string \<times> string" where
  "req_tuple req = (case req of (x, f, t, ty) \<Rightarrow> (f, t, ty))"

subsection \<open>Importing the nodes\<close>

lemma update_fresh: "k \<notin> fst ` set al \<Longrightarrow> AList.update k v al = al @ [(k, v)]"
  by (induction al) auto

lemma addNode_fresh:
  assumes "did \<noteq> []" and "did \<notin> fst ` set (nodes g)"
  shows "addNode did metadata t1 t2 g
     = Inr (g\<lparr>nodes := nodes g @ [(did, new_node did metadata t1 t2)], modified := True\<rparr>)"
proof -
  have "map_of (nodes g) did = None" using assms(2) by (simp add: map_of_eq_None_iff)
  then show ?thesis
    using assms by (simp add: addNode_def new_node_def update_fresh)
qed

lemma fold_addNode:
  assumes imp: "\<And>x g. imp x (Inr g) = addNode (fst x) (md x) now now g"
    and "distinct (map fst xs)" and "[] \<notin> fst ` set xs"
    and "fst ` set xs \<inter> fst ` set (nodes g) = {}"
  shows "\<exists>g'. fold imp xs (Inr g) = Inr g' \<and>
     nodes g' = nodes g @ map (\<lambda>x. (fst x, new_node (fst x) (md x) now now)) xs \<and>
     edges g' = edges g \<and> provData g' = provData g"
  using assms(2-)
proof (induction xs arbitrary: g)
  case Nil
  then show ?case by simp
next
  case (Cons x xs)
  let ?g1 = "g\<lparr>nodes := nodes g @ [(fst x, new_node (fst x) (md x) now now)], modified := True\<rparr>"
  have fresh: "fst x \<noteq> []" "fst x \<notin> fst ` set (nodes g)"
    using Cons.prems by auto
  have step: "imp x (Inr g) = Inr ?g1"
    using addNode_fresh[OF fresh] imp by simp
  have d: "distinct (map fst xs)" "[] \<notin> fst ` set xs" using Cons.prems by auto
  have disj: "fst ` set xs \<inter> fst ` set (nodes ?g1) = {}"
    using Cons.prems by auto
  from Cons.IH[OF d disj] obtain g' where
    "fold imp xs (Inr ?g1) = Inr g'"
    "nodes g' = nodes ?g1 @ map (\<lambda>x. (fst x, new_node (fst x) (md x) now now)) xs"
    "edges g' = edges ?g1" "provData g' = provData ?g1"
    by blast
  then show ?case using step by simp
qed

lemma import_entity_step: "import_entity now x (Inr g) = addNode (fst x) (entity_md now x) now now g"
  by (simp add: import_entity_def entity_md_def)

lemma import_activity_step: "import_activity now x (Inr g) = addNode (fst x) (activity_md now x) now now g"
  by (simp add: import_activity_def activity_md_def Let_def)

lemma import_agent_step: "import_agent now x (Inr g) = addNode (fst x) (agent_md x) now now g"
  by (simp add: import_agent_def agent_md_def)

text \<open>The nodes of the imported graph.\<close>

definition imported_nodes :: "string \<Rightarrow> prov \<Rightarrow> (string \<times> obj) list" where
  "imported_nodes now p =
     map (\<lambda>x. (fst x, new_node (fst x) (entity_md now x) now now)) (entity p)
     @ map (\<lambda>x. (fst x, new_node (fst x) (activity_md now x) now now)) (activity p)
     @ map (\<lambda>x. (fst x, new_node (fst x) (agent_md x) now now)) (agent p)"

lemma import_nodes:
  assumes "distinct (prov_keys p)" and "[] \<notin> set (prov_keys p)"
  shows "\<exists>g. fold (import_agent now) (agent p)
            (fold (import_activity now) (activity p)
               (fold (import_entity now) (entity p) (Inr new_graph))) = Inr g \<and>
     nodes g = imported_nodes now p \<and> edges g = [] \<and> provData g = None"
proof -
  have de: "distinct (map fst (entity p))" "distinct (map fst (activity p))" "distinct (map fst (agent p))"
    and ne: "[] \<notin> fst ` set (entity p)" "[] \<notin> fst ` set (activity p)" "[] \<notin> fst ` set (agent p)"
    and x1: "fst ` set (activity p) \<inter> fst ` set (entity p) = {}"
    and x2: "fst ` set (agent p) \<inter> (fst ` set (entity p) \<union> fst ` set (activity p)) = {}"
    using assms by (auto simp: prov_keys_def)
  from fold_addNode[of "import_entity now" "entity_md now" now "entity p" new_graph,
      OF import_entity_step de(1) ne(1)]
  obtain g1 where g1: "fold (import_entity now) (entity p) (Inr new_graph) = Inr g1"
    "nodes g1 = map (\<lambda>x. (fst x, new_node (fst x) (entity_md now x) now now)) (entity p)"
    "edges g1 = []" "provData g1 = None"
    by (auto simp: new_graph_def)
  have d1: "fst ` set (activity p) \<inter> fst ` set (nodes g1) = {}"
    using x1 by (simp add: g1(2) image_image)
  from fold_addNode[of "import_activity now" "activity_md now" now "activity p" g1,
      OF import_activity_step de(2) ne(2) d1]
  obtain g2 where g2: "fold (import_activity now) (activity p) (Inr g1) = Inr g2"
    "nodes g2 = nodes g1 @ map (\<lambda>x. (fst x, new_node (fst x) (activity_md now x) now now)) (activity p)"
    "edges g2 = edges g1" "provData g2 = provData g1"
    by blast
  have d2: "fst ` set (agent p) \<inter> fst ` set (nodes g2) = {}"
    using x2 by (simp add: g1(2) g2(2) image_image image_Un)
  from fold_addNode[of "import_agent now" agent_md now "agent p" g2,
      OF import_agent_step de(3) ne(3) d2]
  obtain g3 where g3: "fold (import_agent now) (agent p) (Inr g2) = Inr g3"
    "nodes g3 = nodes g2 @ map (\<lambda>x. (fst x, new_node (fst x) (agent_md x) now now)) (agent p)"
    "edges g3 = edges g2" "provData g3 = provData g2"
    by blast
  show ?thesis
    using g1 g2 g3 by (simp add: imported_nodes_def)
qed

subsection \<open>Importing the edges\<close>

lemma fold_link_map:
  "fold (\<lambda>x. link_if now (h x)) xs acc = fold (link_if now) (map h xs) acc"
  by (simp add: fold_map comp_def)

lemma import_entity_relations_reqs:
  "import_entity_relations now de acc = fold (link_if now) (entity_reqs de) acc"
proof -
  have asset: "fold (\<lambda>kv a. fold (\<lambda>target. link_if now (target, fst de, target, fst kv)) (snd kv) a) al a0
      = fold (link_if now) (concat (map (\<lambda>kv. map (\<lambda>target. (target, fst de, target, fst kv)) (snd kv)) al)) a0"
    for al a0
    by (induction al arbitrary: a0) (simp_all add: fold_map comp_def)
  show ?thesis
    unfolding import_entity_relations_def entity_reqs_def Let_def asset fold_append comp_def
    by (simp add: fold_map comp_def split: option.splits)
qed

lemma import_activity_relations_reqs:
  "import_activity_relations now da acc = fold (link_if now) (activity_reqs da) acc"
  unfolding import_activity_relations_def activity_reqs_def Let_def fold_append comp_def
  by (simp add: fold_map comp_def split: option.splits)

lemma fold_blocks:
  assumes "\<And>x acc. imp x acc = fold f (reqs x) acc"
  shows "fold imp xs acc = fold f (concat (map reqs xs)) acc"
  by (induction xs arbitrary: acc) (simp_all add: assms)

definition all_reqs :: "prov \<Rightarrow> (string \<times> string \<times> string \<times> string) list" where
  "all_reqs p = concat (map entity_reqs (entity p)) @ concat (map activity_reqs (activity p))"

lemma import_relations_reqs:
  "fold (import_activity_relations now) (activity p)
     (fold (import_entity_relations now) (entity p) acc)
   = fold (link_if now) (all_reqs p) acc"
  using fold_blocks[of "import_entity_relations now" "link_if now" entity_reqs, OF import_entity_relations_reqs]
    fold_blocks[of "import_activity_relations now" "link_if now" activity_reqs, OF import_activity_relations_reqs]
  by (simp add: all_reqs_def)

definition wf_req :: "string set \<Rightarrow> string \<times> string \<times> string \<times> string \<Rightarrow> bool" where
  "wf_req keys req =
     (case req of (x, f, t, ty) \<Rightarrow> x \<in> keys \<and> f \<in> keys \<and> t \<in> keys \<and> ty \<in> set RELATIONSHIP_TYPES)"

lemma findIndex_absent:
  "(f, t, ty) \<notin> edge_tuple ` set es \<Longrightarrow> findIndex (edge_is f t ty) es = None"
  unfolding findIndex_None edge_is_tuple by (metis image_eqI)

lemma link_if_new:
  assumes "wf_req (fst ` set (nodes g)) req" and "req_tuple req \<notin> edge_tuple ` set (edges g)"
  shows "link_if now req (Inr g) = Inr (g\<lparr>edges := edges g @ [req_edge now req], modified := True\<rparr>)"
proof -
  obtain x f t ty where r: "req = (x, f, t, ty)" by (cases req) auto
  have h: "has_node g x" "has_node g f" "has_node g t" "ty \<in> set RELATIONSHIP_TYPES"
    using assms(1) r by (auto simp: wf_req_def has_node_def map_of_eq_None_iff)
  have "findIndex (edge_is f t ty) (edges g) = None"
    using assms(2) r by (intro findIndex_absent) (simp add: req_tuple_def)
  then show ?thesis
    using h r by (simp add: link_if_def addEdge_def req_edge_def)
qed

lemma req_edge_tuple: "edge_tuple (req_edge now req) = req_tuple req"
  by (cases req) (simp add: req_edge_def req_tuple_def mk_edge_def edge_tuple_def or_else_def)

lemma run_reqs:
  assumes "list_all (wf_req (fst ` set (nodes g))) reqs"
    and "distinct (map req_tuple reqs)"
    and "req_tuple ` set reqs \<inter> edge_tuple ` set (edges g) = {}"
  shows "\<exists>g'. fold (link_if now) reqs (Inr g) = Inr g' \<and> nodes g' = nodes g \<and>
     edges g' = edges g @ map (req_edge now) reqs \<and> provData g' = provData g"
  using assms
proof (induction reqs arbitrary: g)
  case Nil
  then show ?case by simp
next
  case (Cons r rs)
  let ?g1 = "g\<lparr>edges := edges g @ [req_edge now r], modified := True\<rparr>"
  have step: "link_if now r (Inr g) = Inr ?g1"
    using Cons.prems by (intro link_if_new) auto
  have 1: "list_all (wf_req (fst ` set (nodes ?g1))) rs" using Cons.prems(1) by simp
  have 2: "distinct (map req_tuple rs)" using Cons.prems(2) by simp
  have 3: "req_tuple ` set rs \<inter> edge_tuple ` set (edges ?g1) = {}"
    using Cons.prems(2,3) by (auto simp: req_edge_tuple)
  from Cons.IH[OF 1 2 3] obtain g' where
    "fold (link_if now) rs (Inr ?g1) = Inr g'" "nodes g' = nodes ?g1"
    "edges g' = edges ?g1 @ map (req_edge now) rs" "provData g' = provData ?g1"
    by blast
  then show ?case using step by simp
qed

subsection \<open>The requests of a well-formed document\<close>

lemma wf_prov_entity:
  "wf_prov p \<Longrightarrow> (k, e) \<in> set (entity p) \<Longrightarrow> wf_entity p e"
  by (auto simp: wf_prov_def list_all_iff)

lemma wf_prov_activity:
  "wf_prov p \<Longrightarrow> (k, a) \<in> set (activity p) \<Longrightarrow> wf_activity p a"
  by (auto simp: wf_prov_def list_all_iff)

lemma wf_prov_agent:
  "wf_prov p \<Longrightarrow> (k, a) \<in> set (agent p) \<Longrightarrow> wf_agent a"
  by (auto simp: wf_prov_def list_all_iff)

lemma has_key_iff: "has_key al k \<longleftrightarrow> k \<in> fst ` set al"
  by (simp add: has_key_def map_of_eq_None_iff)

lemma keys_subsets:
  "fst ` set (entity p) \<subseteq> set (prov_keys p)"
  "fst ` set (activity p) \<subseteq> set (prov_keys p)"
  "fst ` set (agent p) \<subseteq> set (prov_keys p)"
  by (auto simp: prov_keys_def)

lemma special_in_types: "set SPECIAL_TYPES \<subseteq> set RELATIONSHIP_TYPES"
  by (simp add: SPECIAL_TYPES_def DERIVATION_TYPES_def RELATIONSHIP_TYPES_def)

lemma entity_reqs_pair:
  "entity_reqs (k, e) =
     (case pe_wasDerivedFrom e of
        None \<Rightarrow> [] | Some sources \<Rightarrow> map (\<lambda>source. (source, source, k, ''wasDerivedFrom'')) sources)
     @ (case pe_wasGeneratedBy e of
          None \<Rightarrow> [] | Some x \<Rightarrow> if x \<noteq> [] then [(x, k, x, ''wasGeneratedBy'')] else [])
     @ (case pe_wasAttributedTo e of
          None \<Rightarrow> [] | Some x \<Rightarrow> if x \<noteq> [] then [(x, k, x, ''wasAttributedTo'')] else [])
     @ concat (map (\<lambda>kv. map (\<lambda>target. (target, k, target, fst kv)) (snd kv)) (pe_asset e))"
  by (simp add: entity_reqs_def split: option.splits)

lemma activity_reqs_pair:
  "activity_reqs (k, a) =
     (case pa_used a of
        None \<Rightarrow> [] | Some es \<Rightarrow> map (\<lambda>entity. (entity, k, entity, ''used'')) es)
     @ (case pa_wasAssociatedWith a of
          None \<Rightarrow> [] | Some x \<Rightarrow> if x \<noteq> [] then [(x, k, x, ''wasAssociatedWith'')] else [])"
  by (simp add: activity_reqs_def split: option.splits)

lemma entity_reqs_wf:
  assumes wf: "wf_prov p" and m: "(k, e) \<in> set (entity p)"
  shows "list_all (wf_req (set (prov_keys p))) (entity_reqs (k, e))"
proof -
  have e: "wf_entity p e" using wf m by (rule wf_prov_entity)
  have k: "k \<in> set (prov_keys p)" using m keys_subsets(1)[of p] by force
  have ty: "''wasDerivedFrom'' \<in> set RELATIONSHIP_TYPES" "''wasGeneratedBy'' \<in> set RELATIONSHIP_TYPES"
      "''wasAttributedTo'' \<in> set RELATIONSHIP_TYPES"
    by (simp_all add: RELATIONSHIP_TYPES_def)
  have 1: "list_all (wf_req (set (prov_keys p)))
      (case pe_wasDerivedFrom e of None \<Rightarrow> []
       | Some sources \<Rightarrow> map (\<lambda>source. (source, source, k, ''wasDerivedFrom'')) sources)"
    using e k ty(1)
    by (auto simp: wf_entity_def wf_targets_def wf_req_def list_all_iff split: option.splits)
  have 2: "list_all (wf_req (set (prov_keys p)))
      (case pe_wasGeneratedBy e of None \<Rightarrow> []
       | Some x \<Rightarrow> if x \<noteq> [] then [(x, k, x, ''wasGeneratedBy'')] else [])"
    using e k ty(2) keys_subsets(2)[of p]
    by (auto simp: wf_entity_def wf_req_def has_key_iff split: option.splits)
  have 3: "list_all (wf_req (set (prov_keys p)))
      (case pe_wasAttributedTo e of None \<Rightarrow> []
       | Some x \<Rightarrow> if x \<noteq> [] then [(x, k, x, ''wasAttributedTo'')] else [])"
    using e k ty(3) keys_subsets(3)[of p]
    by (auto simp: wf_entity_def wf_req_def has_key_iff split: option.splits)
  have a: "list_all (\<lambda>kv. fst kv \<in> set RELATIONSHIP_TYPES \<and> wf_targets (prov_keys p) (snd kv)) (pe_asset e)"
    using e by (auto simp: wf_entity_def list_all_iff)
  have 4: "list_all (wf_req (set (prov_keys p)))
      (concat (map (\<lambda>kv. map (\<lambda>target. (target, k, target, fst kv)) (snd kv)) (pe_asset e)))"
    using a k by (auto simp: list_all_iff wf_req_def wf_targets_def)
  show ?thesis
    unfolding entity_reqs_pair using 1 2 3 4 by simp
qed

lemma activity_reqs_wf:
  assumes wf: "wf_prov p" and m: "(k, a) \<in> set (activity p)"
  shows "list_all (wf_req (set (prov_keys p))) (activity_reqs (k, a))"
proof -
  have a: "wf_activity p a" using wf m by (rule wf_prov_activity)
  have k: "k \<in> set (prov_keys p)" using m keys_subsets(2)[of p] by force
  have ty: "''used'' \<in> set RELATIONSHIP_TYPES" "''wasAssociatedWith'' \<in> set RELATIONSHIP_TYPES"
    by (simp_all add: RELATIONSHIP_TYPES_def)
  have 1: "list_all (wf_req (set (prov_keys p)))
      (case pa_used a of None \<Rightarrow> [] | Some es \<Rightarrow> map (\<lambda>entity. (entity, k, entity, ''used'')) es)"
    using a k ty(1) keys_subsets(1)[of p]
    by (auto simp: wf_activity_def wf_targets_def wf_req_def list_all_iff split: option.splits)
  have 2: "list_all (wf_req (set (prov_keys p)))
      (case pa_wasAssociatedWith a of None \<Rightarrow> []
       | Some x \<Rightarrow> if x \<noteq> [] then [(x, k, x, ''wasAssociatedWith'')] else [])"
    using a k ty(2) keys_subsets(3)[of p]
    by (auto simp: wf_activity_def wf_req_def has_key_iff split: option.splits)
  show ?thesis unfolding activity_reqs_pair using 1 2 by simp
qed

lemma all_reqs_wf:
  assumes "wf_prov p"
  shows "list_all (wf_req (set (prov_keys p))) (all_reqs p)"
proof -
  have "\<forall>de \<in> set (entity p). list_all (wf_req (set (prov_keys p))) (entity_reqs de)"
    using entity_reqs_wf[OF assms] by auto
  moreover have "\<forall>da \<in> set (activity p). list_all (wf_req (set (prov_keys p))) (activity_reqs da)"
    using activity_reqs_wf[OF assms] by auto
  ultimately show ?thesis
    by (auto simp: all_reqs_def list_all_iff)
qed

text \<open>Every request belongs to one entry of the document: a derivation to its target, any
  other relation to its source.\<close>

definition owner_of :: "string \<times> string \<times> string \<Rightarrow> string" where
  "owner_of tu = (case tu of (f, t, ty) \<Rightarrow> if ty = ''wasDerivedFrom'' then t else f)"

lemma distinct_blocks:
  assumes "distinct (map key xs)"
    and "\<And>x. x \<in> set xs \<Longrightarrow> distinct (B x)"
    and "\<And>x y. x \<in> set xs \<Longrightarrow> y \<in> set (B x) \<Longrightarrow> own y = key x"
  shows "distinct (concat (map B xs))"
  using assms
proof (induction xs)
  case Nil
  then show ?case by simp
next
  case (Cons x xs)
  have "distinct (concat (map B xs))" using Cons by simp
  moreover have "distinct (B x)" using Cons.prems(2) by simp
  moreover have "set (B x) \<inter> set (concat (map B xs)) = {}"
  proof (rule ccontr)
    assume "set (B x) \<inter> set (concat (map B xs)) \<noteq> {}"
    then obtain y x' where y: "y \<in> set (B x)" "x' \<in> set xs" "y \<in> set (B x')" by auto
    then have "key x = key x'" using Cons.prems(3)[of x y] Cons.prems(3)[of x' y] by simp
    then show False using Cons.prems(1) y(2) by auto
  qed
  ultimately show ?case by simp
qed

lemma asset_tuples_distinct:
  assumes "distinct (map fst al)" and "\<forall>kv \<in> set al. distinct (snd kv)"
  shows "distinct (concat (map (\<lambda>kv. map (\<lambda>target. (k, target, fst kv)) (snd kv)) al))"
proof (rule distinct_blocks[where key = fst and own = "\<lambda>tu. snd (snd tu)"])
  show "distinct (map fst al)" by (rule assms(1))
next
  fix kv assume "kv \<in> set al"
  then have "distinct (snd kv)" using assms(2) by simp
  then show "distinct (map (\<lambda>target. (k, target, fst kv)) (snd kv))"
    by (simp add: distinct_map inj_on_def)
next
  fix kv y assume "kv \<in> set al" "y \<in> set (map (\<lambda>target. (k, target, fst kv)) (snd kv))"
  then show "snd (snd y) = fst kv" by auto
qed

definition entity_tuples :: "string \<times> prov_entity \<Rightarrow> (string \<times> string \<times> string) list" where
  "entity_tuples de = map req_tuple (entity_reqs de)"

definition activity_tuples :: "string \<times> prov_activity \<Rightarrow> (string \<times> string \<times> string) list" where
  "activity_tuples da = map req_tuple (activity_reqs da)"

lemma entity_tuples_eq:
  "entity_tuples (k, e) =
     (case pe_wasDerivedFrom e of None \<Rightarrow> [] | Some ss \<Rightarrow> map (\<lambda>s. (s, k, ''wasDerivedFrom'')) ss)
     @ (case pe_wasGeneratedBy e of None \<Rightarrow> [] | Some x \<Rightarrow> if x \<noteq> [] then [(k, x, ''wasGeneratedBy'')] else [])
     @ (case pe_wasAttributedTo e of None \<Rightarrow> [] | Some x \<Rightarrow> if x \<noteq> [] then [(k, x, ''wasAttributedTo'')] else [])
     @ concat (map (\<lambda>kv. map (\<lambda>target. (k, target, fst kv)) (snd kv)) (pe_asset e))"
  by (simp add: entity_tuples_def entity_reqs_pair req_tuple_def map_concat comp_def
      split: option.splits)

lemma activity_tuples_eq:
  "activity_tuples (k, a) =
     (case pa_used a of None \<Rightarrow> [] | Some es \<Rightarrow> map (\<lambda>x. (k, x, ''used'')) es)
     @ (case pa_wasAssociatedWith a of None \<Rightarrow> [] | Some x \<Rightarrow> if x \<noteq> [] then [(k, x, ''wasAssociatedWith'')] else [])"
  by (simp add: activity_tuples_def activity_reqs_pair req_tuple_def comp_def split: option.splits)

lemma asset_types:
  assumes "wf_entity p e" and "kv \<in> set (pe_asset e)"
  shows "fst kv \<noteq> ''wasDerivedFrom''" "fst kv \<noteq> ''wasGeneratedBy''" "fst kv \<noteq> ''wasAttributedTo''"
    "fst kv \<notin> set SPECIAL_TYPES" "distinct (snd kv)"
proof -
  from assms show s: "fst kv \<notin> set SPECIAL_TYPES" and "distinct (snd kv)"
    by (auto simp: wf_entity_def list_all_iff wf_targets_def)
  from s show "fst kv \<noteq> ''wasDerivedFrom''" "fst kv \<noteq> ''wasGeneratedBy''" "fst kv \<noteq> ''wasAttributedTo''"
    by (auto simp: SPECIAL_TYPES_def DERIVATION_TYPES_def)
qed

lemma entity_tuples_distinct:
  assumes e: "wf_entity p e"
  shows "distinct (entity_tuples (k, e))"
proof -
  let ?A = "case pe_wasDerivedFrom e of None \<Rightarrow> [] | Some ss \<Rightarrow> map (\<lambda>s. (s, k, ''wasDerivedFrom'')) ss"
  let ?B = "case pe_wasGeneratedBy e of None \<Rightarrow> [] | Some x \<Rightarrow> if x \<noteq> [] then [(k, x, ''wasGeneratedBy'')] else []"
  let ?C = "case pe_wasAttributedTo e of None \<Rightarrow> [] | Some x \<Rightarrow> if x \<noteq> [] then [(k, x, ''wasAttributedTo'')] else []"
  let ?D = "concat (map (\<lambda>kv. map (\<lambda>target. (k, target, fst kv)) (snd kv)) (pe_asset e))"
  have tA: "\<forall>tu \<in> set ?A. snd (snd tu) = ''wasDerivedFrom''" by (auto split: option.splits)
  have tB: "\<forall>tu \<in> set ?B. snd (snd tu) = ''wasGeneratedBy''" by (auto split: option.splits)
  have tC: "\<forall>tu \<in> set ?C. snd (snd tu) = ''wasAttributedTo''" by (auto split: option.splits)
  have tD: "\<forall>tu \<in> set ?D. snd (snd tu) \<noteq> ''wasDerivedFrom'' \<and> snd (snd tu) \<noteq> ''wasGeneratedBy''
      \<and> snd (snd tu) \<noteq> ''wasAttributedTo''"
    using asset_types(1-3)[OF e] by auto
  have dA: "distinct ?A"
    using e by (auto simp: wf_entity_def wf_targets_def distinct_map inj_on_def split: option.splits)
  have dB: "distinct ?B" and dC: "distinct ?C" by (auto split: option.splits)
  have dD: "distinct ?D"
    using e asset_types(5)[OF e] by (intro asset_tuples_distinct) (auto simp: wf_entity_def)
  have AB: "set ?A \<inter> set ?B = {}" using tA tB by fastforce
  have AC: "set ?A \<inter> set ?C = {}" using tA tC by fastforce
  have AD: "set ?A \<inter> set ?D = {}" using tA tD by fastforce
  have BC: "set ?B \<inter> set ?C = {}" using tB tC by fastforce
  have BD: "set ?B \<inter> set ?D = {}" using tB tD by fastforce
  have CD: "set ?C \<inter> set ?D = {}" using tC tD by fastforce
  have "distinct (?A @ ?B @ ?C @ ?D)"
    using dA dB dC dD AB AC AD BC BD CD by (simp add: Int_Un_distrib)
  then show ?thesis by (simp only: entity_tuples_eq)
qed

lemma entity_tuples_owner:
  assumes e: "wf_entity p e" and y: "y \<in> set (entity_tuples (k, e))"
  shows "owner_of y = k"
proof -
  let ?A = "case pe_wasDerivedFrom e of None \<Rightarrow> [] | Some ss \<Rightarrow> map (\<lambda>s. (s, k, ''wasDerivedFrom'')) ss"
  let ?B = "case pe_wasGeneratedBy e of None \<Rightarrow> [] | Some x \<Rightarrow> if x \<noteq> [] then [(k, x, ''wasGeneratedBy'')] else []"
  let ?C = "case pe_wasAttributedTo e of None \<Rightarrow> [] | Some x \<Rightarrow> if x \<noteq> [] then [(k, x, ''wasAttributedTo'')] else []"
  let ?D = "concat (map (\<lambda>kv. map (\<lambda>target. (k, target, fst kv)) (snd kv)) (pe_asset e))"
  have oA: "\<forall>tu \<in> set ?A. owner_of tu = k" by (auto simp: owner_of_def split: option.splits)
  have oB: "\<forall>tu \<in> set ?B. owner_of tu = k" by (auto simp: owner_of_def split: option.splits)
  have oC: "\<forall>tu \<in> set ?C. owner_of tu = k" by (auto simp: owner_of_def split: option.splits)
  have oD: "\<forall>tu \<in> set ?D. owner_of tu = k"
    using asset_types(1)[OF e] by (auto simp: owner_of_def)
  have "y \<in> set ?A \<union> set ?B \<union> set ?C \<union> set ?D"
    using y unfolding entity_tuples_eq by simp
  then show ?thesis using oA oB oC oD by blast
qed

lemma activity_tuples_distinct:
  assumes a: "wf_activity p a"
  shows "distinct (activity_tuples (k, a))"
proof -
  let ?A = "case pa_used a of None \<Rightarrow> [] | Some es \<Rightarrow> map (\<lambda>x. (k, x, ''used'')) es"
  let ?B = "case pa_wasAssociatedWith a of None \<Rightarrow> [] | Some x \<Rightarrow> if x \<noteq> [] then [(k, x, ''wasAssociatedWith'')] else []"
  have tA: "\<forall>tu \<in> set ?A. snd (snd tu) = ''used''" by (auto split: option.splits)
  have tB: "\<forall>tu \<in> set ?B. snd (snd tu) = ''wasAssociatedWith''" by (auto split: option.splits)
  have dA: "distinct ?A"
    using a by (auto simp: wf_activity_def wf_targets_def distinct_map inj_on_def split: option.splits)
  have dB: "distinct ?B" by (auto split: option.splits)
  have "set ?A \<inter> set ?B = {}" using tA tB by fastforce
  then have "distinct (?A @ ?B)" using dA dB by simp
  then show ?thesis by (simp only: activity_tuples_eq)
qed

lemma activity_tuples_owner:
  assumes "y \<in> set (activity_tuples (k, a))"
  shows "owner_of y = k"
  using assms unfolding activity_tuples_eq
  by (auto simp: owner_of_def split: option.splits if_splits)

lemma all_reqs_distinct:
  assumes wf: "wf_prov p"
  shows "distinct (map req_tuple (all_reqs p))"
proof -
  have dk: "distinct (map fst (entity p))" "distinct (map fst (activity p))"
    and disj: "fst ` set (entity p) \<inter> fst ` set (activity p) = {}"
    using wf by (auto simp: wf_prov_def prov_keys_def)
  have E: "distinct (concat (map entity_tuples (entity p)))"
  proof (rule distinct_blocks[where key = fst and own = owner_of])
    show "distinct (map fst (entity p))" by (rule dk(1))
  next
    fix x assume "x \<in> set (entity p)"
    then show "distinct (entity_tuples x)"
      using wf_prov_entity[OF wf, of "fst x" "snd x"] entity_tuples_distinct[of p "snd x" "fst x"] by simp
  next
    fix x y assume "x \<in> set (entity p)" "y \<in> set (entity_tuples x)"
    then show "owner_of y = fst x"
      using wf_prov_entity[OF wf, of "fst x" "snd x"] entity_tuples_owner[of p "snd x" y "fst x"] by simp
  qed
  have A: "distinct (concat (map activity_tuples (activity p)))"
  proof (rule distinct_blocks[where key = fst and own = owner_of])
    show "distinct (map fst (activity p))" by (rule dk(2))
  next
    fix x assume "x \<in> set (activity p)"
    then show "distinct (activity_tuples x)"
      using wf_prov_activity[OF wf, of "fst x" "snd x"] activity_tuples_distinct[of p "snd x" "fst x"] by simp
  next
    fix x y assume "x \<in> set (activity p)" "y \<in> set (activity_tuples x)"
    then show "owner_of y = fst x"
      using activity_tuples_owner[of y "fst x" "snd x"] by simp
  qed
  have oE: "\<forall>y \<in> set (concat (map entity_tuples (entity p))). owner_of y \<in> fst ` set (entity p)"
  proof
    fix y assume "y \<in> set (concat (map entity_tuples (entity p)))"
    then obtain x where x: "x \<in> set (entity p)" "y \<in> set (entity_tuples x)" by auto
    then have "owner_of y = fst x"
      using wf_prov_entity[OF wf, of "fst x" "snd x"] entity_tuples_owner[of p "snd x" y "fst x"] by simp
    then show "owner_of y \<in> fst ` set (entity p)" using x(1) by simp
  qed
  have oA: "\<forall>y \<in> set (concat (map activity_tuples (activity p))). owner_of y \<in> fst ` set (activity p)"
  proof
    fix y assume "y \<in> set (concat (map activity_tuples (activity p)))"
    then obtain x where x: "x \<in> set (activity p)" "y \<in> set (activity_tuples x)" by auto
    then have "owner_of y = fst x" using activity_tuples_owner[of y "fst x" "snd x"] by simp
    then show "owner_of y \<in> fst ` set (activity p)" using x(1) by simp
  qed
  have "set (concat (map entity_tuples (entity p))) \<inter> set (concat (map activity_tuples (activity p))) = {}"
    using oE oA disj by blast
  then have "distinct (concat (map entity_tuples (entity p)) @ concat (map activity_tuples (activity p)))"
    using E A by simp
  moreover have "map req_tuple (all_reqs p)
      = concat (map entity_tuples (entity p)) @ concat (map activity_tuples (activity p))"
    by (simp add: all_reqs_def map_concat entity_tuples_def[abs_def] activity_tuples_def[abs_def] comp_def)
  ultimately show ?thesis by simp
qed

subsection \<open>Projecting the imported nodes\<close>

definition clear_entity :: "prov_entity \<Rightarrow> prov_entity" where
  "clear_entity e = e\<lparr>pe_wasDerivedFrom := None, pe_wasGeneratedBy := None,
     pe_wasAttributedTo := None, pe_asset := []\<rparr>"

definition clear_activity :: "prov_activity \<Rightarrow> prov_activity" where
  "clear_activity a = a\<lparr>pa_used := None, pa_wasAssociatedWith := None\<rparr>"

lemma truthy_Some: "truthy v \<Longrightarrow> \<exists>s. v = Some s \<and> s \<noteq> []"
  by (cases v) (simp_all add: truthy_def)

lemma agent_not_activity: "is_agent_type v \<Longrightarrow> v \<noteq> Some ACTIVITY"
  by (auto simp: is_agent_type_def ACTIVITY_def AGENT_def PERSON_def ORGANIZATION_def SOFTWARE_def)

lemma add_entity_node:
  assumes "wf_entity p e"
  shows "prov_add_node (k, new_node k (entity_md now (k, e)) now now) q
     = q\<lparr>entity := AList.update k (clear_entity e) (entity q)\<rparr>"
proof -
  from assms obtain t l c where f: "pe_type e = Some t" "t \<noteq> []" "pe_label e = Some l" "l \<noteq> []"
      "pe_generatedAtTime e = Some c" "c \<noteq> []"
    by (auto simp: wf_entity_def dest!: truthy_Some)
  have nt: "Some t \<noteq> Some ACTIVITY" "\<not> is_agent_type (Some t)"
    using assms f(1) by (auto simp: wf_entity_def)
  let ?n = "new_node k (entity_md now (k, e)) now now"
  have n: "?n ''type'' = Some t" "?n ''label'' = Some l" "?n ''created'' = Some c"
    using f by (simp_all add: new_node_def entity_md_def js_or_str_def)
  have "\<lparr>pe_type = Some t, pe_label = js_or (Some l) (Some k), pe_generatedAtTime = Some c,
          pe_wasDerivedFrom = None, pe_wasGeneratedBy = None, pe_wasAttributedTo = None,
          pe_asset = []\<rparr> = clear_entity e"
    using f by (simp add: clear_entity_def js_or_def truthy_def)
  then show ?thesis
    using n nt by (simp add: prov_add_node_def)
qed

lemma add_activity_node:
  assumes "wf_activity p a"
  shows "prov_add_node (k, new_node k (activity_md now (k, a)) now now) q
     = q\<lparr>activity := AList.update k (clear_activity a) (activity q)\<rparr>"
proof -
  from assms obtain s e l where f: "pa_startedAtTime a = Some s" "s \<noteq> []"
      "pa_endedAtTime a = Some e" "e \<noteq> []" "pa_label a = Some l" "l \<noteq> []"
    by (auto simp: wf_activity_def dest!: truthy_Some)
  let ?n = "new_node k (activity_md now (k, a)) now now"
  have n: "?n ''type'' = Some ACTIVITY" "?n ''label'' = Some l" "?n ''startTime'' = Some s"
      "?n ''endTime'' = Some e"
    using f by (simp_all add: new_node_def activity_md_def js_or_str_def opt_field_def)
  have "\<lparr>pa_startedAtTime = js_or (Some s) (?n ''created''), pa_endedAtTime = js_or (Some e) (?n ''updated''),
          pa_label = js_or (Some l) (Some k), pa_used = None, pa_wasAssociatedWith = None\<rparr>
        = clear_activity a"
    using f by (simp add: clear_activity_def js_or_def truthy_def)
  then show ?thesis
    using n by (simp add: prov_add_node_def)
qed

lemma add_agent_node:
  assumes "wf_agent a"
  shows "prov_add_node (k, new_node k (agent_md (k, a)) now now) q
     = q\<lparr>agent := AList.update k a (agent q)\<rparr>"
proof -
  from assms obtain t l where f: "pg_type a = Some t" "t \<noteq> []" "pg_label a = Some l" "l \<noteq> []"
      "is_agent_type (Some t)"
    by (auto simp: wf_agent_def is_agent_type_def AGENT_def PERSON_def ORGANIZATION_def SOFTWARE_def
        dest!: truthy_Some)
  have na: "Some t \<noteq> Some ACTIVITY" using agent_not_activity[OF f(5)] .
  let ?n = "new_node k (agent_md (k, a)) now now"
  have n: "?n ''type'' = Some t" "?n ''label'' = Some l"
    using f by (simp_all add: new_node_def agent_md_def js_or_str_def)
  have "\<lparr>pg_type = Some t, pg_label = js_or (Some l) (Some k)\<rparr> = a"
    using f by (simp add: js_or_def truthy_def)
  then show ?thesis
    using n na f(5) by (simp add: prov_add_node_def)
qed

lemma fold_updates_fresh:
  assumes "distinct (map fst xs)" and "fst ` set xs \<inter> fst ` set al = {}"
  shows "fold (\<lambda>x. AList.update (fst x) (h x)) xs al = al @ map (\<lambda>x. (fst x, h x)) xs"
  using assms
proof (induction xs arbitrary: al)
  case Nil
  then show ?case by simp
next
  case (Cons x xs)
  have "AList.update (fst x) (h x) al = al @ [(fst x, h x)]"
    using Cons.prems by (intro update_fresh) auto
  moreover have "fold (\<lambda>x. AList.update (fst x) (h x)) xs (al @ [(fst x, h x)])
      = (al @ [(fst x, h x)]) @ map (\<lambda>x. (fst x, h x)) xs"
    using Cons.prems by (intro Cons.IH) auto
  ultimately show ?case by simp
qed

definition cleared :: "prov \<Rightarrow> prov" where
  "cleared p = \<lparr>entity = map (\<lambda>x. (fst x, clear_entity (snd x))) (entity p),
                activity = map (\<lambda>x. (fst x, clear_activity (snd x))) (activity p),
                agent = agent p\<rparr>"

lemma fold_entity_nodes:
  assumes "\<forall>x \<in> set xs. wf_entity p (snd x)"
  shows "fold prov_add_node (map (\<lambda>x. (fst x, new_node (fst x) (entity_md now x) now now)) xs) q
     = q\<lparr>entity := fold (\<lambda>x. AList.update (fst x) (clear_entity (snd x))) xs (entity q)\<rparr>"
  using assms
proof (induction xs arbitrary: q)
  case Nil
  then show ?case by simp
next
  case (Cons x xs)
  have "prov_add_node (fst x, new_node (fst x) (entity_md now x) now now) q
      = q\<lparr>entity := AList.update (fst x) (clear_entity (snd x)) (entity q)\<rparr>"
    using add_entity_node[of p "snd x" "fst x" now q] Cons.prems by simp
  then show ?case using Cons by simp
qed

lemma fold_activity_nodes:
  assumes "\<forall>x \<in> set xs. wf_activity p (snd x)"
  shows "fold prov_add_node (map (\<lambda>x. (fst x, new_node (fst x) (activity_md now x) now now)) xs) q
     = q\<lparr>activity := fold (\<lambda>x. AList.update (fst x) (clear_activity (snd x))) xs (activity q)\<rparr>"
  using assms
proof (induction xs arbitrary: q)
  case Nil
  then show ?case by simp
next
  case (Cons x xs)
  have "prov_add_node (fst x, new_node (fst x) (activity_md now x) now now) q
      = q\<lparr>activity := AList.update (fst x) (clear_activity (snd x)) (activity q)\<rparr>"
    using add_activity_node[of p "snd x" "fst x" now q] Cons.prems by simp
  then show ?case using Cons by simp
qed

lemma fold_agent_nodes:
  assumes "\<forall>x \<in> set xs. wf_agent (snd x)"
  shows "fold prov_add_node (map (\<lambda>x. (fst x, new_node (fst x) (agent_md x) now now)) xs) q
     = q\<lparr>agent := fold (\<lambda>x. AList.update (fst x) (snd x)) xs (agent q)\<rparr>"
  using assms
proof (induction xs arbitrary: q)
  case Nil
  then show ?case by simp
next
  case (Cons x xs)
  have "prov_add_node (fst x, new_node (fst x) (agent_md x) now now) q
      = q\<lparr>agent := AList.update (fst x) (snd x) (agent q)\<rparr>"
    using add_agent_node[of "snd x" "fst x" now q] Cons.prems by simp
  then show ?case using Cons by simp
qed

lemma base_doc:
  assumes wf: "wf_prov p"
  shows "fold prov_add_node (imported_nodes now p) empty_prov = cleared p"
proof -
  have we: "\<forall>x \<in> set (entity p). wf_entity p (snd x)"
    and wa: "\<forall>x \<in> set (activity p). wf_activity p (snd x)"
    and wg: "\<forall>x \<in> set (agent p). wf_agent (snd x)"
    and d: "distinct (map fst (entity p))" "distinct (map fst (activity p))" "distinct (map fst (agent p))"
    using wf by (auto simp: wf_prov_def list_all_iff prov_keys_def)
  have 1: "fold (\<lambda>x. AList.update (fst x) (clear_entity (snd x))) (entity p) []
      = map (\<lambda>x. (fst x, clear_entity (snd x))) (entity p)"
    using fold_updates_fresh[OF d(1), of "[]" "\<lambda>x. clear_entity (snd x)"] by simp
  have 2: "fold (\<lambda>x. AList.update (fst x) (clear_activity (snd x))) (activity p) []
      = map (\<lambda>x. (fst x, clear_activity (snd x))) (activity p)"
    using fold_updates_fresh[OF d(2), of "[]" "\<lambda>x. clear_activity (snd x)"] by simp
  have 3: "fold (\<lambda>x. AList.update (fst x) (snd x)) (agent p) [] = agent p"
    using fold_updates_fresh[OF d(3), of "[]" snd] by simp
  show ?thesis
    unfolding imported_nodes_def fold_append comp_def
    by (simp add: fold_entity_nodes[OF we] fold_activity_nodes[OF wa] fold_agent_nodes[OF wg]
        empty_prov_def cleared_def 1 2 3)
qed

subsection \<open>Projecting the imported edges\<close>

definition upd_ent :: "string \<Rightarrow> (prov_entity \<Rightarrow> prov_entity) \<Rightarrow> prov \<Rightarrow> prov" where
  "upd_ent k f q = q\<lparr>entity := AList.map_entry k f (entity q)\<rparr>"

definition upd_act :: "string \<Rightarrow> (prov_activity \<Rightarrow> prov_activity) \<Rightarrow> prov \<Rightarrow> prov" where
  "upd_act k f q = q\<lparr>activity := AList.map_entry k f (activity q)\<rparr>"

definition same_keys :: "prov \<Rightarrow> prov \<Rightarrow> bool" where
  "same_keys q p =
     (map fst (entity q) = map fst (entity p) \<and> map fst (activity q) = map fst (activity p) \<and>
      map fst (agent q) = map fst (agent p))"

text \<open>What the edge of a request does to the entry of its owner.\<close>

definition ent_eff :: "string \<times> string \<times> string \<times> string \<Rightarrow> prov_entity \<Rightarrow> prov_entity" where
  "ent_eff req ent =
     (case req of (x, f, t, ty) \<Rightarrow>
        if ty = ''wasDerivedFrom'' then ent\<lparr>pe_wasDerivedFrom := push_opt (pe_wasDerivedFrom ent) f\<rparr>
        else if ty = ''wasGeneratedBy'' then ent\<lparr>pe_wasGeneratedBy := Some t\<rparr>
        else if ty = ''wasAttributedTo'' then ent\<lparr>pe_wasAttributedTo := Some t\<rparr>
        else ent\<lparr>pe_asset := push_asset ty t (pe_asset ent)\<rparr>)"

definition act_eff :: "string \<times> string \<times> string \<times> string \<Rightarrow> prov_activity \<Rightarrow> prov_activity" where
  "act_eff req act =
     (case req of (x, f, t, ty) \<Rightarrow>
        if ty = ''used'' then act\<lparr>pa_used := push_opt (pa_used act) t\<rparr>
        else act\<lparr>pa_wasAssociatedWith := Some t\<rparr>)"

lemma map_entry_keys: "map fst (AList.map_entry k f al) = map fst al"
  by (induction al) auto

lemma map_entry_comp: "AList.map_entry k g (AList.map_entry k f al) = AList.map_entry k (g \<circ> f) al"
  by (induction al) auto

lemma map_entry_id: "AList.map_entry k (\<lambda>x. x) al = al"
  by (induction al) auto

lemma map_entry_at:
  "k \<notin> fst ` set pre \<Longrightarrow>
   AList.map_entry k f (pre @ (k, c) # rest) = pre @ (k, f c) # rest"
  by (induction pre) auto

lemma same_keys_upd_ent: "same_keys q p \<Longrightarrow> same_keys (upd_ent k f q) p"
  by (simp add: same_keys_def upd_ent_def map_entry_keys)

lemma same_keys_upd_act: "same_keys q p \<Longrightarrow> same_keys (upd_act k f q) p"
  by (simp add: same_keys_def upd_act_def map_entry_keys)

lemma same_keys_has:
  assumes "same_keys q p"
  shows "has_key (entity q) k = has_key (entity p) k"
    and "has_key (activity q) k = has_key (activity p) k"
    and "has_key (agent q) k = has_key (agent p) k"
proof -
  have "fst ` set (entity q) = fst ` set (entity p)"
    using assms by (metis same_keys_def set_map)
  then show "has_key (entity q) k = has_key (entity p) k" by (simp add: has_key_iff)
  have "fst ` set (activity q) = fst ` set (activity p)"
    using assms by (metis same_keys_def set_map)
  then show "has_key (activity q) k = has_key (activity p) k" by (simp add: has_key_iff)
  have "fst ` set (agent q) = fst ` set (agent p)"
    using assms by (metis same_keys_def set_map)
  then show "has_key (agent q) k = has_key (agent p) k" by (simp add: has_key_iff)
qed

lemma map_of_tagged:
  "distinct (map fst xs) \<Longrightarrow> x \<in> set xs \<Longrightarrow> map_of (map (\<lambda>x. (fst x, h x)) xs) (fst x) = Some (h x)"
  by (induction xs) (auto simp: rev_image_eqI)

lemma imported_entity_type:
  assumes wf: "wf_prov p" and m: "(k, e) \<in> set (entity p)"
  shows "(case map_of (imported_nodes now p) k of None \<Rightarrow> None | Some n \<Rightarrow> n ''type'') = pe_type e"
proof -
  have d: "distinct (map fst (entity p))" using wf by (simp add: wf_prov_def prov_keys_def)
  let ?h = "\<lambda>x. new_node (fst x) (entity_md now x) now now"
  have "map_of (map (\<lambda>x. (fst x, ?h x)) (entity p)) k = Some (?h (k, e))"
    using map_of_tagged[OF d m, of ?h] by simp
  then have "map_of (imported_nodes now p) k = Some (?h (k, e))"
    by (simp add: imported_nodes_def)
  moreover obtain t where "pe_type e = Some t" "t \<noteq> []"
    using wf_prov_entity[OF wf m] by (auto simp: wf_entity_def dest!: truthy_Some)
  ultimately show ?thesis
    by (simp add: new_node_def entity_md_def js_or_str_def)
qed

lemma type_facts:
  "''wasDerivedFrom'' \<in> set DERIVATION_TYPES"
  "''wasGeneratedBy'' \<notin> set DERIVATION_TYPES"
  "''wasAttributedTo'' \<notin> set DERIVATION_TYPES"
  "''used'' \<notin> set DERIVATION_TYPES"
  "''wasAssociatedWith'' \<notin> set DERIVATION_TYPES"
  by (simp_all add: DERIVATION_TYPES_def)

lemma not_special:
  assumes "ty \<notin> set SPECIAL_TYPES"
  shows "ty \<notin> set DERIVATION_TYPES" "ty \<noteq> ''wasGeneratedBy''" "ty \<noteq> ''used''"
    "ty \<noteq> ''wasAttributedTo''" "ty \<noteq> ''wasAssociatedWith''" "ty \<noteq> ''wasDerivedFrom''"
  using assms by (auto simp: SPECIAL_TYPES_def DERIVATION_TYPES_def)

lemma ent_step:
  assumes wf: "wf_prov p" and m: "(k, e) \<in> set (entity p)"
    and r: "r \<in> set (entity_reqs (k, e))" and sk: "same_keys q p"
  shows "prov_add_edge (imported_nodes now p) (req_edge now r) q = upd_ent k (ent_eff r) q"
proof -
  have e: "wf_entity p e" using wf m by (rule wf_prov_entity)
  have hk: "has_key (entity q) k"
    using same_keys_has(1)[OF sk] m by (force simp: has_key_iff)
  let ?A = "case pe_wasDerivedFrom e of None \<Rightarrow> []
            | Some sources \<Rightarrow> map (\<lambda>source. (source, source, k, ''wasDerivedFrom'')) sources"
  let ?B = "case pe_wasGeneratedBy e of None \<Rightarrow> []
            | Some x \<Rightarrow> if x \<noteq> [] then [(x, k, x, ''wasGeneratedBy'')] else []"
  let ?C = "case pe_wasAttributedTo e of None \<Rightarrow> []
            | Some x \<Rightarrow> if x \<noteq> [] then [(x, k, x, ''wasAttributedTo'')] else []"
  let ?D = "concat (map (\<lambda>kv. map (\<lambda>target. (target, k, target, fst kv)) (snd kv)) (pe_asset e))"
  from r have "r \<in> set ?A \<or> r \<in> set ?B \<or> r \<in> set ?C \<or> r \<in> set ?D"
    unfolding entity_reqs_pair by simp
  then consider (A) "r \<in> set ?A" | (B) "r \<in> set ?B" | (C) "r \<in> set ?C" | (D) "r \<in> set ?D"
    by blast
  then show ?thesis
  proof cases
    case A
    then obtain s where s: "r = (s, s, k, ''wasDerivedFrom'')" by (auto split: option.splits)
    show ?thesis
      using hk type_facts(1)
      by (simp add: s req_edge_def mk_edge_def or_else_def prov_add_edge_def upd_ent_def ent_eff_def[abs_def])
  next
    case B
    then obtain x where x: "r = (x, k, x, ''wasGeneratedBy'')" "pe_wasGeneratedBy e = Some x"
      by (auto split: option.splits if_splits)
    have "has_key (activity q) x"
      using e x(2) same_keys_has(2)[OF sk] by (simp add: wf_entity_def)
    then show ?thesis
      using hk type_facts(2)
      by (simp add: x(1) req_edge_def mk_edge_def or_else_def prov_add_edge_def upd_ent_def ent_eff_def[abs_def])
  next
    case C
    then obtain x where x: "r = (x, k, x, ''wasAttributedTo'')" "pe_wasAttributedTo e = Some x"
      by (auto split: option.splits if_splits)
    have "has_key (agent q) x"
      using e x(2) same_keys_has(3)[OF sk] by (simp add: wf_entity_def)
    then show ?thesis
      using hk type_facts(3)
      by (simp add: x(1) req_edge_def mk_edge_def or_else_def prov_add_edge_def upd_ent_def ent_eff_def[abs_def])
  next
    case D
    then obtain kv t where kv: "kv \<in> set (pe_asset e)" "r = (t, k, t, fst kv)" by auto
    have ns: "fst kv \<notin> set SPECIAL_TYPES" using asset_types(4)[OF e kv(1)] .
    have "pe_asset e \<noteq> []" using kv(1) by auto
    then have ty: "pe_type e = Some RESOURCE \<or> pe_type e = Some MODEL"
      using e by (auto simp: wf_entity_def)
    have ft: "(case map_of (imported_nodes now p) k of None \<Rightarrow> None | Some n \<Rightarrow> n ''type'') = pe_type e"
      using imported_entity_type[OF wf m] .
    show ?thesis
      using hk not_special[OF ns] ty ft
      by (simp add: kv(2) req_edge_def mk_edge_def or_else_def prov_add_edge_def upd_ent_def
          ent_eff_def[abs_def] Let_def)
  qed
qed

lemma ent_block_fold:
  assumes wf: "wf_prov p" and m: "(k, e) \<in> set (entity p)"
    and "set rs \<subseteq> set (entity_reqs (k, e))" and "same_keys q p"
  shows "fold (prov_add_edge (imported_nodes now p)) (map (req_edge now) rs) q
     = upd_ent k (fold ent_eff rs) q"
  using assms(3,4)
proof (induction rs arbitrary: q)
  case Nil
  then show ?case by (simp add: upd_ent_def map_entry_id)
next
  case (Cons r rs)
  have 1: "prov_add_edge (imported_nodes now p) (req_edge now r) q = upd_ent k (ent_eff r) q"
    using ent_step[OF wf m _ Cons.prems(2), of r now] Cons.prems(1) by simp
  have 2: "fold (prov_add_edge (imported_nodes now p)) (map (req_edge now) rs) (upd_ent k (ent_eff r) q)
      = upd_ent k (fold ent_eff rs) (upd_ent k (ent_eff r) q)"
    using Cons.prems by (intro Cons.IH same_keys_upd_ent) auto
  show ?case
    using 1 2 by (simp add: upd_ent_def map_entry_comp comp_def)
qed

lemma act_step:
  assumes wf: "wf_prov p" and m: "(k, a) \<in> set (activity p)"
    and r: "r \<in> set (activity_reqs (k, a))" and sk: "same_keys q p"
  shows "prov_add_edge (imported_nodes now p) (req_edge now r) q = upd_act k (act_eff r) q"
proof -
  have a: "wf_activity p a" using wf m by (rule wf_prov_activity)
  have hk: "has_key (activity q) k"
    using same_keys_has(2)[OF sk] m by (force simp: has_key_iff)
  let ?A = "case pa_used a of None \<Rightarrow> []
            | Some es \<Rightarrow> map (\<lambda>entity. (entity, k, entity, ''used'')) es"
  let ?B = "case pa_wasAssociatedWith a of None \<Rightarrow> []
            | Some x \<Rightarrow> if x \<noteq> [] then [(x, k, x, ''wasAssociatedWith'')] else []"
  from r have "r \<in> set ?A \<or> r \<in> set ?B"
    unfolding activity_reqs_pair by simp
  then consider (A) "r \<in> set ?A" | (B) "r \<in> set ?B"
    by blast
  then show ?thesis
  proof cases
    case A
    then obtain es where es: "pa_used a = Some es" by (cases "pa_used a") auto
    with A obtain t where t: "pa_used a = Some es" "t \<in> set es" "r = (t, k, t, ''used'')"
      by auto
    have "t \<in> fst ` set (entity p)"
      using a t(1,2) by (auto simp: wf_activity_def wf_targets_def)
    then have "has_key (entity q) t"
      using same_keys_has(1)[OF sk] by (simp add: has_key_iff)
    then show ?thesis
      using hk type_facts(4)
      by (simp add: t(3) req_edge_def mk_edge_def or_else_def prov_add_edge_def upd_act_def
          act_eff_def[abs_def])
  next
    case B
    then obtain x where x: "r = (x, k, x, ''wasAssociatedWith'')" "pa_wasAssociatedWith a = Some x"
      by (auto split: option.splits if_splits)
    have "has_key (agent q) x"
      using a x(2) same_keys_has(3)[OF sk] by (simp add: wf_activity_def)
    then show ?thesis
      using hk type_facts(5)
      by (simp add: x(1) req_edge_def mk_edge_def or_else_def prov_add_edge_def upd_act_def
          act_eff_def[abs_def])
  qed
qed

lemma act_block_fold:
  assumes wf: "wf_prov p" and m: "(k, a) \<in> set (activity p)"
    and "set rs \<subseteq> set (activity_reqs (k, a))" and "same_keys q p"
  shows "fold (prov_add_edge (imported_nodes now p)) (map (req_edge now) rs) q
     = upd_act k (fold act_eff rs) q"
  using assms(3,4)
proof (induction rs arbitrary: q)
  case Nil
  then show ?case by (simp add: upd_act_def map_entry_id)
next
  case (Cons r rs)
  have 1: "prov_add_edge (imported_nodes now p) (req_edge now r) q = upd_act k (act_eff r) q"
    using act_step[OF wf m _ Cons.prems(2), of r now] Cons.prems(1) by simp
  have 2: "fold (prov_add_edge (imported_nodes now p)) (map (req_edge now) rs) (upd_act k (act_eff r) q)
      = upd_act k (fold act_eff rs) (upd_act k (act_eff r) q)"
    using Cons.prems by (intro Cons.IH same_keys_upd_act) auto
  show ?case
    using 1 2 by (simp add: upd_act_def map_entry_comp comp_def)
qed

subsection \<open>The requests of one entry rebuild the entry\<close>

lemma fold_push_opt_Some: "fold (\<lambda>s l. push_opt l s) ss (Some xs) = Some (xs @ ss)"
  by (induction ss arbitrary: xs) (simp_all add: push_opt_def)

lemma fold_push_opt_None: "ss \<noteq> [] \<Longrightarrow> fold (\<lambda>s l. push_opt l s) ss None = Some ss"
proof (cases ss)
  case Nil
  assume "ss \<noteq> []"
  then show ?thesis using Nil by simp
next
  case (Cons x xs)
  have "push_opt None x = Some [x]" by (simp add: push_opt_def)
  then show ?thesis using fold_push_opt_Some[of xs "[x]"] by (simp add: Cons)
qed

lemma fold_derived:
  "fold ent_eff (map (\<lambda>s. (s, s, k, ''wasDerivedFrom'')) ss) ent
     = ent\<lparr>pe_wasDerivedFrom := fold (\<lambda>s l. push_opt l s) ss (pe_wasDerivedFrom ent)\<rparr>"
  by (induction ss arbitrary: ent) (simp_all add: ent_eff_def)

lemma fold_used:
  "fold act_eff (map (\<lambda>s. (s, k, s, ''used'')) ss) act
     = act\<lparr>pa_used := fold (\<lambda>s l. push_opt l s) ss (pa_used act)\<rparr>"
  by (induction ss arbitrary: act) (simp_all add: act_eff_def)

lemma update_last: "k \<notin> fst ` set al \<Longrightarrow> AList.update k v (al @ [(k, w)]) = al @ [(k, v)]"
  by (induction al) auto

lemma map_of_last: "k \<notin> fst ` set al \<Longrightarrow> map_of (al @ [(k, w)]) k = Some w"
  by (induction al) auto

lemma push_asset_last:
  assumes "ty \<notin> fst ` set al"
  shows "push_asset ty t (al @ [(ty, xs)]) = al @ [(ty, xs @ [t])]"
  unfolding push_asset_def map_of_last[OF assms] update_last[OF assms] by simp

lemma fold_push_asset_last:
  "ty \<notin> fst ` set al \<Longrightarrow>
   fold (push_asset ty) ts (al @ [(ty, xs)]) = al @ [(ty, xs @ ts)]"
  by (induction ts arbitrary: xs) (simp_all add: push_asset_last)

lemma fold_push_asset_new:
  assumes "ty \<notin> fst ` set al" and "ts \<noteq> []"
  shows "fold (push_asset ty) ts al = al @ [(ty, ts)]"
proof -
  obtain t ts' where ts: "ts = t # ts'" using assms(2) by (cases ts) auto
  have "map_of al ty = None" using assms(1) by (simp add: map_of_eq_None_iff)
  then have "push_asset ty t al = al @ [(ty, [t])]"
    using assms(1) by (simp add: push_asset_def update_fresh)
  then show ?thesis
    using fold_push_asset_last[OF assms(1), of ts' "[t]"] by (simp add: ts)
qed

lemma fold_groups:
  assumes "distinct (map fst (acc @ al))" and "\<forall>kv \<in> set al. snd kv \<noteq> []"
  shows "fold (\<lambda>kv. fold (push_asset (fst kv)) (snd kv)) al acc = acc @ al"
  using assms
proof (induction al arbitrary: acc)
  case Nil
  then show ?case by simp
next
  case (Cons kv al)
  have "fst kv \<notin> fst ` set acc" using Cons.prems(1) by auto
  then have 1: "fold (push_asset (fst kv)) (snd kv) acc = acc @ [kv]"
    using fold_push_asset_new[of "fst kv" acc "snd kv"] Cons.prems(2) by simp
  have "fold (\<lambda>kv. fold (push_asset (fst kv)) (snd kv)) al (acc @ [kv]) = (acc @ [kv]) @ al"
    using Cons.prems by (intro Cons.IH) auto
  then show ?case using 1 by simp
qed

lemma fold_assets:
  assumes "\<forall>kv \<in> set al. fst kv \<noteq> ''wasDerivedFrom'' \<and> fst kv \<noteq> ''wasGeneratedBy'' \<and>
             fst kv \<noteq> ''wasAttributedTo''"
  shows "fold ent_eff (concat (map (\<lambda>kv. map (\<lambda>target. (target, k, target, fst kv)) (snd kv)) al)) ent
     = ent\<lparr>pe_asset := fold (\<lambda>kv. fold (push_asset (fst kv)) (snd kv)) al (pe_asset ent)\<rparr>"
  using assms
proof (induction al arbitrary: ent)
  case Nil
  then show ?case by simp
next
  case (Cons kv al)
  have ty: "fst kv \<noteq> ''wasDerivedFrom''" "fst kv \<noteq> ''wasGeneratedBy''" "fst kv \<noteq> ''wasAttributedTo''"
    using Cons.prems by auto
  have 1: "fold ent_eff (map (\<lambda>target. (target, k, target, fst kv)) ts) c
      = c\<lparr>pe_asset := fold (push_asset (fst kv)) ts (pe_asset c)\<rparr>" for ts c
    using ty by (induction ts arbitrary: c) (simp_all add: ent_eff_def)
  show ?case
    using Cons.prems by (simp add: 1 Cons.IH)
qed

lemma ent_eff_total:
  assumes wf: "wf_prov p" and m: "(k, e) \<in> set (entity p)"
  shows "fold ent_eff (entity_reqs (k, e)) (clear_entity e) = e"
proof -
  have e: "wf_entity p e" using wf m by (rule wf_prov_entity)
  have ne: "[] \<notin> set (prov_keys p)" using wf by (simp add: wf_prov_def)
  let ?A = "case pe_wasDerivedFrom e of None \<Rightarrow> []
            | Some sources \<Rightarrow> map (\<lambda>source. (source, source, k, ''wasDerivedFrom'')) sources"
  let ?B = "case pe_wasGeneratedBy e of None \<Rightarrow> []
            | Some x \<Rightarrow> if x \<noteq> [] then [(x, k, x, ''wasGeneratedBy'')] else []"
  let ?C = "case pe_wasAttributedTo e of None \<Rightarrow> []
            | Some x \<Rightarrow> if x \<noteq> [] then [(x, k, x, ''wasAttributedTo'')] else []"
  let ?D = "concat (map (\<lambda>kv. map (\<lambda>target. (target, k, target, fst kv)) (snd kv)) (pe_asset e))"
  have A: "fold ent_eff ?A c = c\<lparr>pe_wasDerivedFrom := pe_wasDerivedFrom e\<rparr>"
    if "pe_wasDerivedFrom c = None" for c
  proof (cases "pe_wasDerivedFrom e")
    case None
    then show ?thesis using that by simp
  next
    case (Some ss)
    then have "ss \<noteq> []" using e by (simp add: wf_entity_def wf_targets_def)
    then show ?thesis using that Some by (simp add: fold_derived fold_push_opt_None)
  qed
  have B: "fold ent_eff ?B c = c\<lparr>pe_wasGeneratedBy := pe_wasGeneratedBy e\<rparr>"
    if "pe_wasGeneratedBy c = None" for c
  proof (cases "pe_wasGeneratedBy e")
    case None
    then show ?thesis using that by simp
  next
    case (Some x)
    then have "x \<in> set (prov_keys p)"
      using e keys_subsets(2)[of p] by (auto simp: wf_entity_def has_key_iff)
    then have "x \<noteq> []" using ne by auto
    then show ?thesis using Some by (simp add: ent_eff_def)
  qed
  have C: "fold ent_eff ?C c = c\<lparr>pe_wasAttributedTo := pe_wasAttributedTo e\<rparr>"
    if "pe_wasAttributedTo c = None" for c
  proof (cases "pe_wasAttributedTo e")
    case None
    then show ?thesis using that by simp
  next
    case (Some x)
    then have "x \<in> set (prov_keys p)"
      using e keys_subsets(3)[of p] by (auto simp: wf_entity_def has_key_iff)
    then have "x \<noteq> []" using ne by auto
    then show ?thesis using Some by (simp add: ent_eff_def)
  qed
  have D: "fold ent_eff ?D c = c\<lparr>pe_asset := pe_asset e\<rparr>" if "pe_asset c = []" for c
  proof -
    have t: "\<forall>kv \<in> set (pe_asset e). fst kv \<noteq> ''wasDerivedFrom'' \<and> fst kv \<noteq> ''wasGeneratedBy'' \<and>
             fst kv \<noteq> ''wasAttributedTo''"
      using asset_types(1,2,3)[OF e] by blast
    have n: "\<forall>kv \<in> set (pe_asset e). snd kv \<noteq> []"
      using e by (auto simp: wf_entity_def list_all_iff wf_targets_def)
    have d: "distinct (map fst ([] @ pe_asset e))" using e by (simp add: wf_entity_def)
    show ?thesis
      using fold_assets[OF t, of k c] fold_groups[OF d n] that by simp
  qed
  have "fold ent_eff (entity_reqs (k, e)) (clear_entity e)
      = fold ent_eff ?D (fold ent_eff ?C (fold ent_eff ?B (fold ent_eff ?A (clear_entity e))))"
    unfolding entity_reqs_pair by simp
  also have "\<dots> = e"
    by (simp add: A B C D clear_entity_def)
  finally show ?thesis .
qed

lemma act_eff_total:
  assumes wf: "wf_prov p" and m: "(k, a) \<in> set (activity p)"
  shows "fold act_eff (activity_reqs (k, a)) (clear_activity a) = a"
proof -
  have a: "wf_activity p a" using wf m by (rule wf_prov_activity)
  have ne: "[] \<notin> set (prov_keys p)" using wf by (simp add: wf_prov_def)
  let ?A = "case pa_used a of None \<Rightarrow> []
            | Some es \<Rightarrow> map (\<lambda>entity. (entity, k, entity, ''used'')) es"
  let ?B = "case pa_wasAssociatedWith a of None \<Rightarrow> []
            | Some x \<Rightarrow> if x \<noteq> [] then [(x, k, x, ''wasAssociatedWith'')] else []"
  have A: "fold act_eff ?A c = c\<lparr>pa_used := pa_used a\<rparr>" if "pa_used c = None" for c
  proof (cases "pa_used a")
    case None
    then show ?thesis using that by simp
  next
    case (Some ss)
    then have "ss \<noteq> []" using a by (simp add: wf_activity_def wf_targets_def)
    then show ?thesis using that Some by (simp add: fold_used fold_push_opt_None)
  qed
  have B: "fold act_eff ?B c = c\<lparr>pa_wasAssociatedWith := pa_wasAssociatedWith a\<rparr>"
    if "pa_wasAssociatedWith c = None" for c
  proof (cases "pa_wasAssociatedWith a")
    case None
    then show ?thesis using that by simp
  next
    case (Some x)
    then have "x \<in> set (prov_keys p)"
      using a keys_subsets(3)[of p] by (auto simp: wf_activity_def has_key_iff)
    then have "x \<noteq> []" using ne by auto
    then show ?thesis using Some by (simp add: act_eff_def)
  qed
  have "fold act_eff (activity_reqs (k, a)) (clear_activity a)
      = fold act_eff ?B (fold act_eff ?A (clear_activity a))"
    unfolding activity_reqs_pair by simp
  also have "\<dots> = a"
    by (simp add: A B clear_activity_def)
  finally show ?thesis .
qed

subsection \<open>All the imported edges\<close>

lemma entity_phase:
  assumes wf: "wf_prov p"
    and "set todo \<subseteq> set (entity p)" and "distinct (map fst (pre @ todo))" and "same_keys q p"
    and "entity q = pre @ map (\<lambda>x. (fst x, clear_entity (snd x))) todo"
  shows "fold (prov_add_edge (imported_nodes now p))
           (map (req_edge now) (concat (map entity_reqs todo))) q = q\<lparr>entity := pre @ todo\<rparr>"
  using assms(2-)
proof (induction todo arbitrary: pre q)
  case Nil
  then show ?case by simp
next
  case (Cons x todo)
  obtain k e where x: "x = (k, e)" by (cases x) auto
  have m: "(k, e) \<in> set (entity p)" using Cons.prems(1) x by simp
  have fresh: "k \<notin> fst ` set pre" using Cons.prems(2) x by auto
  let ?q1 = "q\<lparr>entity := (pre @ [x]) @ map (\<lambda>x. (fst x, clear_entity (snd x))) todo\<rparr>"
  have "fold (prov_add_edge (imported_nodes now p)) (map (req_edge now) (entity_reqs x)) q
      = upd_ent k (fold ent_eff (entity_reqs (k, e))) q"
    using ent_block_fold[OF wf m _ Cons.prems(3), of "entity_reqs (k, e)" now] x by simp
  also have "\<dots> = ?q1"
    using map_entry_at[OF fresh, of "fold ent_eff (entity_reqs (k, e))" "clear_entity e"
        "map (\<lambda>x. (fst x, clear_entity (snd x))) todo"]
    by (simp add: upd_ent_def Cons.prems(4) x ent_eff_total[OF wf m])
  finally have 1: "fold (prov_add_edge (imported_nodes now p)) (map (req_edge now) (entity_reqs x)) q = ?q1" .
  have sk: "same_keys ?q1 p"
    using Cons.prems(3,4) by (simp add: same_keys_def comp_def)
  have 2: "fold (prov_add_edge (imported_nodes now p))
           (map (req_edge now) (concat (map entity_reqs todo))) ?q1 = ?q1\<lparr>entity := (pre @ [x]) @ todo\<rparr>"
    using Cons.prems(1,2) sk by (intro Cons.IH) auto
  show ?case
    using 1 2 by simp
qed

lemma activity_phase:
  assumes wf: "wf_prov p"
    and "set todo \<subseteq> set (activity p)" and "distinct (map fst (pre @ todo))" and "same_keys q p"
    and "activity q = pre @ map (\<lambda>x. (fst x, clear_activity (snd x))) todo"
  shows "fold (prov_add_edge (imported_nodes now p))
           (map (req_edge now) (concat (map activity_reqs todo))) q = q\<lparr>activity := pre @ todo\<rparr>"
  using assms(2-)
proof (induction todo arbitrary: pre q)
  case Nil
  then show ?case by simp
next
  case (Cons x todo)
  obtain k a where x: "x = (k, a)" by (cases x) auto
  have m: "(k, a) \<in> set (activity p)" using Cons.prems(1) x by simp
  have fresh: "k \<notin> fst ` set pre" using Cons.prems(2) x by auto
  let ?q1 = "q\<lparr>activity := (pre @ [x]) @ map (\<lambda>x. (fst x, clear_activity (snd x))) todo\<rparr>"
  have "fold (prov_add_edge (imported_nodes now p)) (map (req_edge now) (activity_reqs x)) q
      = upd_act k (fold act_eff (activity_reqs (k, a))) q"
    using act_block_fold[OF wf m _ Cons.prems(3), of "activity_reqs (k, a)" now] x by simp
  also have "\<dots> = ?q1"
    using map_entry_at[OF fresh, of "fold act_eff (activity_reqs (k, a))" "clear_activity a"
        "map (\<lambda>x. (fst x, clear_activity (snd x))) todo"]
    by (simp add: upd_act_def Cons.prems(4) x act_eff_total[OF wf m])
  finally have 1: "fold (prov_add_edge (imported_nodes now p)) (map (req_edge now) (activity_reqs x)) q = ?q1" .
  have sk: "same_keys ?q1 p"
    using Cons.prems(3,4) by (simp add: same_keys_def comp_def)
  have 2: "fold (prov_add_edge (imported_nodes now p))
           (map (req_edge now) (concat (map activity_reqs todo))) ?q1 = ?q1\<lparr>activity := (pre @ [x]) @ todo\<rparr>"
    using Cons.prems(1,2) sk by (intro Cons.IH) auto
  show ?case
    using 1 2 by simp
qed

lemma project_imported:
  assumes wf: "wf_prov p"
  shows "project (imported_nodes now p) (map (req_edge now) (all_reqs p)) = p"
proof -
  have d: "distinct (map fst (entity p))" "distinct (map fst (activity p))"
    using wf by (auto simp: wf_prov_def prov_keys_def)
  let ?N = "imported_nodes now p"
  let ?q2 = "(cleared p)\<lparr>entity := entity p\<rparr>"
  have sk0: "same_keys (cleared p) p" by (simp add: same_keys_def cleared_def comp_def)
  have 1: "fold (prov_add_edge ?N) (map (req_edge now) (concat (map entity_reqs (entity p)))) (cleared p) = ?q2"
    using entity_phase[OF wf, of "entity p" "[]" "cleared p" now] d(1) sk0
    by (simp add: cleared_def)
  have sk2: "same_keys ?q2 p" by (simp add: same_keys_def cleared_def comp_def)
  have 2: "fold (prov_add_edge ?N) (map (req_edge now) (concat (map activity_reqs (activity p)))) ?q2 = p"
    using activity_phase[OF wf, of "activity p" "[]" ?q2 now] d(2) sk2
    by (simp add: cleared_def)
  show ?thesis
    unfolding project_def base_doc[OF wf] all_reqs_def
    using 1 2 by simp
qed

lemma fromPROV_graph:
  assumes wf: "wf_prov p"
  shows "\<exists>g. fromPROV now p = Inr g \<and> nodes g = imported_nodes now p \<and>
     edges g = map (req_edge now) (all_reqs p) \<and> provData g = None"
proof -
  have k: "distinct (prov_keys p)" "[] \<notin> set (prov_keys p)"
    using wf by (simp_all add: wf_prov_def)
  from import_nodes[OF k, of now] obtain g0 where g0:
    "fold (import_agent now) (agent p)
       (fold (import_activity now) (activity p)
          (fold (import_entity now) (entity p) (Inr new_graph))) = Inr g0"
    "nodes g0 = imported_nodes now p" "edges g0 = []" "provData g0 = None"
    by blast
  have keys: "fst ` set (nodes g0) = set (prov_keys p)"
    by (simp add: g0(2) imported_nodes_def prov_keys_def image_Un image_image)
  have 1: "list_all (wf_req (fst ` set (nodes g0))) (all_reqs p)"
    using all_reqs_wf[OF wf] by (simp add: keys)
  have 3: "req_tuple ` set (all_reqs p) \<inter> edge_tuple ` set (edges g0) = {}"
    by (simp add: g0(3))
  from run_reqs[OF 1 all_reqs_distinct[OF wf] 3, of now] obtain g where g:
    "fold (link_if now) (all_reqs p) (Inr g0) = Inr g" "nodes g = nodes g0"
    "edges g = edges g0 @ map (req_edge now) (all_reqs p)" "provData g = provData g0"
    by blast
  have "fromPROV now p = Inr g"
    unfolding fromPROV_def import_relations_reqs g0(1) by (rule g(1))
  then show ?thesis using g g0 by simp
qed

lemma fromPROV_project:
  assumes wf: "wf_prov p"
  shows "\<exists>g. fromPROV now p = Inr g \<and> fst (toPROV g) = p"
proof -
  from fromPROV_graph[OF wf, of now] obtain g where g: "fromPROV now p = Inr g"
    "nodes g = imported_nodes now p" "edges g = map (req_edge now) (all_reqs p)" "provData g = None"
    by blast
  have "fst (toPROV g) = project (nodes g) (edges g)"
    by (simp add: toPROV_def g(4))
  then show ?thesis using g project_imported[OF wf, of now] by simp
qed

subsection \<open>Round trip through the PROV document\<close>

text \<open>
  \<open>ex_round\<close> has one edge of every kind the projection represents; \<open>ex_revision\<close>
  has a \<open>wasDerivedFrom\<close> and a \<open>wasRevisionOf\<close> edge between the same two nodes.
\<close>

definition ex_round :: graph where
  "ex_round = \<lparr>nodes =
       [(''A'', [''did'' \<mapsto> ''A'', ''type'' \<mapsto> ''Dataset'', ''label'' \<mapsto> ''a'', ''created'' \<mapsto> ''T0'', ''updated'' \<mapsto> ''T0'']),
        (''B'', [''did'' \<mapsto> ''B'', ''type'' \<mapsto> ''DigitalResource'', ''label'' \<mapsto> ''b'', ''created'' \<mapsto> ''T0'', ''updated'' \<mapsto> ''T0'']),
        (''P'', [''did'' \<mapsto> ''P'', ''type'' \<mapsto> ''Activity'', ''label'' \<mapsto> ''p'', ''created'' \<mapsto> ''T1'', ''updated'' \<mapsto> ''T2'']),
        (''U'', [''did'' \<mapsto> ''U'', ''type'' \<mapsto> ''Person'', ''label'' \<mapsto> ''u'', ''created'' \<mapsto> ''T0'', ''updated'' \<mapsto> ''T0''])],
     edges =
       [\<lparr>efrom = ''A'', eto = ''B'', etype = ''wasDerivedFrom'', ecreated = ''T'', eprops = Map.empty\<rparr>,
        \<lparr>efrom = ''P'', eto = ''A'', etype = ''used'', ecreated = ''T'', eprops = Map.empty\<rparr>,
        \<lparr>efrom = ''B'', eto = ''P'', etype = ''wasGeneratedBy'', ecreated = ''T'', eprops = Map.empty\<rparr>,
        \<lparr>efrom = ''B'', eto = ''U'', etype = ''wasAttributedTo'', ecreated = ''T'', eprops = Map.empty\<rparr>,
        \<lparr>efrom = ''P'', eto = ''U'', etype = ''wasAssociatedWith'', ecreated = ''T'', eprops = Map.empty\<rparr>,
        \<lparr>efrom = ''B'', eto = ''A'', etype = ''contains'', ecreated = ''T'', eprops = Map.empty\<rparr>],
     provData = None, modified = True\<rparr>"

definition ex_revision :: graph where
  "ex_revision = \<lparr>nodes =
       [(''A'', [''did'' \<mapsto> ''A'', ''type'' \<mapsto> ''DigitalResource'', ''label'' \<mapsto> ''a'', ''created'' \<mapsto> ''T0'', ''updated'' \<mapsto> ''T0'']),
        (''B'', [''did'' \<mapsto> ''B'', ''type'' \<mapsto> ''DigitalResource'', ''label'' \<mapsto> ''b'', ''created'' \<mapsto> ''T0'', ''updated'' \<mapsto> ''T0''])],
     edges =
       [\<lparr>efrom = ''A'', eto = ''B'', etype = ''wasDerivedFrom'', ecreated = ''T'', eprops = Map.empty\<rparr>,
        \<lparr>efrom = ''A'', eto = ''B'', etype = ''wasRevisionOf'', ecreated = ''T'', eprops = Map.empty\<rparr>],
     provData = None, modified = True\<rparr>"

lemma ex_round_wf: "wf_prov (fst (toPROV ex_round))"
  by code_simp

text \<open>
  C4 (as amended): when the document \<open>toPROV()\<close> returns for a graph \<open>G\<close> is well formed
  (\<open>wf_prov\<close>: the identifiers are distinct and not empty, the type, label and times of
  every entry are not empty, every list of sources, used entities or custom targets is
  not empty, has no repetition and names entries of the document, the generating
  activity and the agents exist, custom relations are relation types outside the PROV
  ones and only on entities of type DigitalResource or AIModel), \<open>fromPROV\<close> returns a
  graph without raising, and \<open>toPROV()\<close> of that graph is the same document.
\<close>

theorem fromPROV_toPROV:
  assumes "wf_prov (fst (toPROV G))"
  shows "\<exists>g. fromPROV now (fst (toPROV G)) = Inr g \<and> fst (toPROV g) = fst (toPROV G)"
  using assms by (rule fromPROV_project)

theorem fromPROV_toPROV_witness:
  "wf_prov (fst (toPROV ex_round)) \<and>
   (\<exists>g. fromPROV ''T9'' (fst (toPROV ex_round)) = Inr g \<and> fst (toPROV g) = fst (toPROV ex_round))"
  using fromPROV_toPROV[of ex_round "''T9''"] ex_round_wf by simp

text \<open>
  C4 as stated (for every graph) fails: the projection of \<open>ex_revision\<close> lists the source
  \<open>A\<close> twice under \<open>prov:wasDerivedFrom\<close> of \<open>B\<close>, once for each of the two edges; the
  import calls \<open>addEdge(A, B, wasDerivedFrom)\<close> twice, the second call updates the edge
  of the first, and the projection of the imported graph lists \<open>A\<close> once.
\<close>

theorem fromPROV_toPROV_counterexample:
  "map (\<lambda>de. (fst de, pe_wasDerivedFrom (snd de))) (entity (fst (toPROV ex_revision)))
     = [(''A'', None), (''B'', Some [''A'', ''A''])] \<and>
   \<not> isl (fromPROV ''T9'' (fst (toPROV ex_revision))) \<and>
   map edge_tuple (edges (projr (fromPROV ''T9'' (fst (toPROV ex_revision)))))
     = [(''A'', ''B'', ''wasDerivedFrom'')] \<and>
   map (\<lambda>de. (fst de, pe_wasDerivedFrom (snd de)))
       (entity (fst (toPROV (projr (fromPROV ''T9'' (fst (toPROV ex_revision)))))))
     = [(''A'', None), (''B'', Some [''A''])] \<and>
   fst (toPROV (projr (fromPROV ''T9'' (fst (toPROV ex_revision))))) \<noteq> fst (toPROV ex_revision)"
  by code_simp

section \<open>Text watermark codec (src/verification/watermarking.js)\<close>

text \<open>A JavaScript string is the list of its UTF-16 code units; a binary string of
  \<open>'0'\<close> and \<open>'1'\<close> characters is a list of bits, \<open>True\<close> for \<open>'1'\<close>.\<close>

type_synonym cu = nat

definition regularSpace :: cu where "regularSpace = 32"
definition noBreakSpace :: cu where "noBreakSpace = 160"
definition zeroWidthSpace :: cu where "zeroWidthSpace = 8203"

text \<open>\<open>n.toString(2)\<close>: the binary digits, most significant first.\<close>

fun toString2 :: "nat \<Rightarrow> bool list" where
  "toString2 n = (if n < 2 then [n = 1] else toString2 (n div 2) @ [n mod 2 = 1])"

declare toString2.simps [simp del]

definition padStart8 :: "bool list \<Rightarrow> bool list" where
  "padStart8 bs = replicate (8 - length bs) False @ bs"

definition textToBinary :: "cu list \<Rightarrow> bool list" where
  "textToBinary text = concat (map (\<lambda>charCode. padStart8 (toString2 charCode)) text)"

text \<open>\<open>parseInt(byte, 2)\<close> on a non-empty binary string.\<close>

definition parseInt2 :: "bool list \<Rightarrow> nat" where
  "parseInt2 bs = foldl (\<lambda>n b. 2 * n + (if b then 1 else 0)) 0 bs"

text \<open>\<open>binary.padEnd(Math.ceil(binary.length / 8) * 8, '0')\<close>.\<close>

definition padEnd8 :: "bool list \<Rightarrow> bool list" where
  "padEnd8 bs = bs @ replicate (((length bs + 7) div 8) * 8 - length bs) False"

text \<open>The loop \<open>for (i = 0; i < padded.length; i += 8)\<close> over the substrings
  \<open>substring(i, i + 8)\<close>.\<close>

fun bytes_of :: "bool list \<Rightarrow> bool list list" where
  "bytes_of [] = []"
| "bytes_of (b # bs) = take 8 (b # bs) # bytes_of (drop 8 (b # bs))"

definition binaryToText :: "bool list \<Rightarrow> cu list" where
  "binaryToText binary = map parseInt2 (bytes_of (padEnd8 binary))"

definition space_indices :: "cu list \<Rightarrow> nat list" where
  "space_indices text = filter (\<lambda>i. text ! i = regularSpace) [0..<length text]"

definition replacement_for :: "bool \<Rightarrow> bool \<Rightarrow> cu list" where
  "replacement_for useZeroWidth b =
     (if \<not> b then [regularSpace]
      else if useZeroWidth then [zeroWidthSpace, regularSpace] else [noBreakSpace])"

text \<open>The embedding loop of \<open>_embedWithSpaces\<close>.  The list of indices is the part of
  \<open>spacesIndices\<close> from the loop counter on; the inner loop adds \<open>lengthDiff\<close> to
  the indices after the current one.  The capacity check before the loop rules the last
  equation out.\<close>

fun embed_loop :: "bool \<Rightarrow> bool list \<Rightarrow> nat list \<Rightarrow> cu list \<Rightarrow> cu list" where
  "embed_loop useZeroWidth [] spacesIndices result = result"
| "embed_loop useZeroWidth (b # payload) (spaceIndex # spacesIndices) result =
     (let replacement = replacement_for useZeroWidth b;
          result' = take spaceIndex result @ replacement @ drop (spaceIndex + 1) result;
          lengthDiff = length replacement - 1
      in embed_loop useZeroWidth payload (map (\<lambda>j. j + lengthDiff) spacesIndices) result')"
| "embed_loop useZeroWidth (b # payload) [] result = result"

definition embedWithSpaces :: "bool \<Rightarrow> cu list \<Rightarrow> bool list \<Rightarrow> error + cu list" where
  "embedWithSpaces useZeroWidth text payloadBinary =
     (let spacesIndices = space_indices text in
      if length spacesIndices < length payloadBinary
      then Inl (Error ''Text has insufficient spaces to embed the payload'')
      else Inr (embed_loop useZeroWidth payloadBinary spacesIndices text))"

text \<open>The scan of \<open>_extractFromSpaces\<close>; \<open>prev\<close> is \<open>text[i-1]\<close>, \<open>None\<close> at
  \<open>i = 0\<close>.\<close>

fun extract_scan :: "cu option \<Rightarrow> cu list \<Rightarrow> bool list" where
  "extract_scan prev [] = []"
| "extract_scan prev (c # cs) =
     (if c = regularSpace then [prev = Some zeroWidthSpace]
      else if c = noBreakSpace then [True] else []) @ extract_scan (Some c) cs"

definition extractFromSpaces :: "cu list \<Rightarrow> bool list option" where
  "extractFromSpaces text =
     (let binaryPayload = extract_scan None text in
      if length binaryPayload < 16 then None else Some binaryPayload)"

text \<open>\<open>embed\<close> and \<open>extract\<close> with the \<open>spaces\<close> strategy.  \<open>JSON.stringify\<close>
  and \<open>JSON.parse\<close> are parameters; a parse that throws is \<open>None\<close>, which
  \<open>extract\<close> turns into \<open>null\<close>.\<close>

definition embed_spaces :: "('p \<Rightarrow> cu list) \<Rightarrow> bool \<Rightarrow> cu list \<Rightarrow> 'p \<Rightarrow> error + cu list" where
  "embed_spaces json_stringify useZeroWidth text payload =
     embedWithSpaces useZeroWidth text (textToBinary (json_stringify payload))"

definition extract_spaces :: "(cu list \<Rightarrow> 'p option) \<Rightarrow> cu list \<Rightarrow> 'p option" where
  "extract_spaces json_parse text =
     (case extractFromSpaces text of
        None \<Rightarrow> None
      | Some binaryPayload \<Rightarrow> json_parse (binaryToText binaryPayload))"


text \<open>What the embedding loop amounts to: one walk over the text that replaces the
  successive spaces by the replacements of the successive bits, until the bits run out.\<close>

fun subst_spaces :: "bool \<Rightarrow> bool list \<Rightarrow> cu list \<Rightarrow> cu list" where
  "subst_spaces useZeroWidth bits [] = []"
| "subst_spaces useZeroWidth bits (c # cs) =
     (if c = regularSpace then
        (case bits of
           [] \<Rightarrow> c # subst_spaces useZeroWidth [] cs
         | b # bs \<Rightarrow> replacement_for useZeroWidth b @ subst_spaces useZeroWidth bs cs)
      else c # subst_spaces useZeroWidth bits cs)"

text \<open>A carrier text on which the scan reads nothing but the embedded bits: no no-break
  space, and no zero-width space directly before a space.\<close>

definition clean_carrier :: "cu list \<Rightarrow> bool" where
  "clean_carrier text =
     (noBreakSpace \<notin> set text \<and>
      (\<forall>i. Suc i < length text \<longrightarrow> text ! i = zeroWidthSpace \<longrightarrow> text ! Suc i \<noteq> regularSpace))"

fun carrier_ok :: "cu option \<Rightarrow> cu list \<Rightarrow> bool" where
  "carrier_ok prev [] = True"
| "carrier_ok prev (c # cs) =
     (c \<noteq> noBreakSpace \<and> \<not> (c = regularSpace \<and> prev = Some zeroWidthSpace) \<and> carrier_ok (Some c) cs)"

text \<open>The empty object: the one payload with the serialization \<open>{}\<close>, and
  \<open>JSON.parse\<close> on the texts that denote it (\<open>{}\<close> between JSON white space); on the
  other texts used below \<open>JSON.parse\<close> throws.\<close>

definition json_stringify_empty :: "unit \<Rightarrow> cu list" where
  "json_stringify_empty payload = [123, 125]"

definition json_ws :: "cu \<Rightarrow> bool" where
  "json_ws c = (c = 32 \<or> c = 9 \<or> c = 10 \<or> c = 13)"

definition json_parse_empty :: "cu list \<Rightarrow> unit option" where
  "json_parse_empty text =
     (if dropWhile json_ws (rev (dropWhile json_ws (rev (dropWhile json_ws text)))) = [123, 125]
      then Some () else None)"

subsection \<open>The loop is the walk\<close>

lemma space_indices_Cons:
  "space_indices (c # cs) = (if c = regularSpace then [0] else []) @ map Suc (space_indices cs)"
proof -
  have "[0..<Suc (length cs)] = 0 # map Suc [0..<length cs]"
    by (simp add: upt_conv_Cons map_Suc_upt del: upt_Suc)
  then show ?thesis
    by (simp add: space_indices_def filter_map comp_def del: upt_Suc)
qed

lemma length_space_indices: "length (space_indices tx) = count_list tx regularSpace"
proof (induction tx)
  case Nil
  then show ?case by (simp add: space_indices_def)
next
  case (Cons c cs)
  then show ?case by (simp add: space_indices_Cons)
qed

lemma embed_loop_walk:
  "length bits \<le> length (space_indices rest) \<Longrightarrow>
   embed_loop z bits (map (\<lambda>j. j + length pre) (space_indices rest)) (pre @ rest)
     = pre @ subst_spaces z bits rest"
proof (induction rest arbitrary: pre bits)
  case Nil
  then show ?case by (simp add: space_indices_def)
next
  case (Cons c cs)
  show ?case
  proof (cases "c = regularSpace")
    case False
    have idx: "map (\<lambda>j. j + length pre) (space_indices (c # cs))
        = map (\<lambda>j. j + length (pre @ [c])) (space_indices cs)"
      using False by (simp add: space_indices_Cons comp_def)
    have "embed_loop z bits (map (\<lambda>j. j + length (pre @ [c])) (space_indices cs)) ((pre @ [c]) @ cs)
        = (pre @ [c]) @ subst_spaces z bits cs"
      using Cons.prems False by (intro Cons.IH) (simp add: space_indices_Cons)
    then show ?thesis using False idx by simp
  next
    case True
    show ?thesis
    proof (cases bits)
      case Nil
      have "pre @ c # subst_spaces z [] cs = pre @ c # cs"
        using Cons.IH[of "[]" "pre @ [c]"] by simp
      then show ?thesis using Nil True by simp
    next
      case (Cons b bs)
      let ?r = "replacement_for z b"
      have idx: "embed_loop z (b # bs) (map (\<lambda>j. j + length pre) (space_indices (c # cs))) (pre @ c # cs)
          = embed_loop z bs (map (\<lambda>j. j + length (pre @ ?r)) (space_indices cs)) ((pre @ ?r) @ cs)"
        using True by (cases z; cases b) (simp_all add: space_indices_Cons replacement_for_def comp_def add_ac)
      have "embed_loop z bs (map (\<lambda>j. j + length (pre @ ?r)) (space_indices cs)) ((pre @ ?r) @ cs)
          = (pre @ ?r) @ subst_spaces z bs cs"
        using Cons.prems Cons True by (intro Cons.IH) (simp add: space_indices_Cons)
      then show ?thesis using Cons True idx by simp
    qed
  qed
qed

lemma embedWithSpaces_walk:
  "embedWithSpaces z tx bits = Inr out \<Longrightarrow> out = subst_spaces z bits tx"
  using embed_loop_walk[of bits tx z "[]"]
  by (auto simp: embedWithSpaces_def Let_def split: if_splits)

lemma embedWithSpaces_ok:
  "length bits \<le> count_list tx regularSpace \<Longrightarrow>
   embedWithSpaces z tx bits = Inr (subst_spaces z bits tx)"
  using embed_loop_walk[of bits tx z "[]"]
  by (simp add: embedWithSpaces_def Let_def length_space_indices)

subsection \<open>Frame property of the walk\<close>

lemma subseq_subst_spaces:
  "subseq (filter (\<lambda>c. c \<noteq> regularSpace) tx) (subst_spaces z bits tx)"
proof (induction tx arbitrary: bits)
  case Nil
  then show ?case by simp
next
  case (Cons c cs)
  show ?case
  proof (cases "c = regularSpace")
    case True
    then show ?thesis
      using Cons.IH by (cases bits) (auto intro: list_emb_append2)
  next
    case False
    then show ?thesis using Cons.IH by simp
  qed
qed

lemma subst_spaces_positions:
  "length (subst_spaces False bits tx) = length tx \<and>
   (\<forall>i < length tx. tx ! i \<noteq> regularSpace \<longrightarrow> subst_spaces False bits tx ! i = tx ! i)"
proof (induction tx arbitrary: bits)
  case Nil
  then show ?case by simp
next
  case (Cons c cs)
  show ?case
  proof (cases "c = regularSpace")
    case True
    then show ?thesis
      using Cons.IH by (cases bits) (auto simp: replacement_for_def nth_Cons')
  next
    case False
    then show ?thesis using Cons.IH by (auto simp: nth_Cons')
  qed
qed

subsection \<open>The scan reads the walk back\<close>

lemma carrier_ok_prev:
  "p \<noteq> Some zeroWidthSpace \<Longrightarrow> q \<noteq> Some zeroWidthSpace \<Longrightarrow> carrier_ok p tx = carrier_ok q tx"
  by (cases tx) auto

lemma clean_carrier_Cons:
  "clean_carrier (c # cs) \<longleftrightarrow>
     c \<noteq> noBreakSpace \<and> (c = zeroWidthSpace \<longrightarrow> (case cs of [] \<Rightarrow> True | d # ds \<Rightarrow> d \<noteq> regularSpace)) \<and>
     clean_carrier cs"
proof -
  have "(\<forall>i. Suc i < length (c # cs) \<longrightarrow> (c # cs) ! i = zeroWidthSpace \<longrightarrow> (c # cs) ! Suc i \<noteq> regularSpace)
     \<longleftrightarrow> (c = zeroWidthSpace \<longrightarrow> (case cs of [] \<Rightarrow> True | d # ds \<Rightarrow> d \<noteq> regularSpace)) \<and>
         (\<forall>i. Suc i < length cs \<longrightarrow> cs ! i = zeroWidthSpace \<longrightarrow> cs ! Suc i \<noteq> regularSpace)"
    (is "?L \<longleftrightarrow> ?A \<and> ?B")
  proof
    assume L: ?L
    have ?A using L[rule_format, of 0] by (cases cs) auto
    moreover have ?B using L[rule_format, of "Suc i" for i] by auto
    ultimately show "?A \<and> ?B" by simp
  next
    assume AB: "?A \<and> ?B"
    show ?L
    proof (intro allI impI)
      fix i assume "Suc i < length (c # cs)" "(c # cs) ! i = zeroWidthSpace"
      then show "(c # cs) ! Suc i \<noteq> regularSpace"
        using AB by (cases i; cases cs) auto
    qed
  qed
  then show ?thesis by (auto simp: clean_carrier_def)
qed

lemma clean_carrier_ok:
  "clean_carrier tx \<Longrightarrow> p \<noteq> Some zeroWidthSpace \<Longrightarrow> carrier_ok p tx"
proof (induction tx arbitrary: p)
  case Nil
  then show ?case by simp
next
  case (Cons c cs)
  from Cons.prems(1) have c: "c \<noteq> noBreakSpace" and cs: "clean_carrier cs"
    and z: "c = zeroWidthSpace \<longrightarrow> (case cs of [] \<Rightarrow> True | d # ds \<Rightarrow> d \<noteq> regularSpace)"
    by (simp_all add: clean_carrier_Cons)
  have "carrier_ok (Some c) cs"
  proof (cases "c = zeroWidthSpace")
    case False
    then show ?thesis using Cons.IH[OF cs] by simp
  next
    case True
    show ?thesis
    proof (cases cs)
      case Nil
      then show ?thesis by simp
    next
      case (Cons d ds)
      with z True have d: "d \<noteq> regularSpace" by simp
      from cs Cons have "carrier_ok None (d # ds)" using Cons.IH[OF cs, of None] by simp
      then show ?thesis using Cons d by simp
    qed
  qed
  then show ?case using c Cons.prems(2) by simp
qed

lemma scan_walk:
  "carrier_ok prev tx \<Longrightarrow> length bits = count_list tx regularSpace \<Longrightarrow>
   extract_scan prev (subst_spaces z bits tx) = bits"
proof (induction tx arbitrary: prev bits)
  case Nil
  then show ?case by simp
next
  case (Cons c cs)
  from Cons.prems(1) have c160: "c \<noteq> noBreakSpace"
    and pz: "\<not> (c = regularSpace \<and> prev = Some zeroWidthSpace)"
    and ok: "carrier_ok (Some c) cs"
    by simp_all
  show ?case
  proof (cases "c = regularSpace")
    case False
    then have "extract_scan (Some c) (subst_spaces z bits cs) = bits"
      using Cons.IH[OF ok] Cons.prems(2) by simp
    then show ?thesis using False c160 by simp
  next
    case True
    then obtain b bs where bits: "bits = b # bs" and len: "length bs = count_list cs regularSpace"
      using Cons.prems(2) by (cases bits) auto
    have ok32: "carrier_ok (Some regularSpace) cs" using ok True by simp
    have ok160: "carrier_ok (Some noBreakSpace) cs"
      using ok32 carrier_ok_prev[of "Some noBreakSpace" "Some regularSpace" cs]
      by (simp add: noBreakSpace_def regularSpace_def zeroWidthSpace_def)
    have r32: "extract_scan (Some regularSpace) (subst_spaces z bs cs) = bs"
      using Cons.IH[OF ok32 len] .
    have r160: "extract_scan (Some noBreakSpace) (subst_spaces z bs cs) = bs"
      using Cons.IH[OF ok160 len] .
    have ne: "regularSpace \<noteq> noBreakSpace" "zeroWidthSpace \<noteq> regularSpace" "zeroWidthSpace \<noteq> noBreakSpace"
      by (simp_all add: noBreakSpace_def regularSpace_def zeroWidthSpace_def)
    show ?thesis
      using True bits pz r32 r160 ne by (cases z; cases b) (simp_all add: replacement_for_def)
  qed
qed

subsection \<open>Bytes and bits\<close>

lemma parseInt2_snoc: "parseInt2 (bs @ [b]) = 2 * parseInt2 bs + (if b then 1 else 0)"
  by (simp add: parseInt2_def)

lemma parseInt2_toString2: "parseInt2 (toString2 n) = n"
proof (induction n rule: toString2.induct)
  case (1 n)
  show ?case
  proof (cases "n < 2")
    case True
    then show ?thesis by (subst toString2.simps) (auto simp: parseInt2_def)
  next
    case False
    then have "parseInt2 (toString2 n) = 2 * (n div 2) + (if n mod 2 = 1 then 1 else 0)"
      using "1.IH" by (subst toString2.simps) (simp add: parseInt2_snoc)
    then show ?thesis by presburger
  qed
qed

lemma parseInt2_zeros: "parseInt2 (replicate k False @ bs) = parseInt2 bs"
proof -
  have "foldl (\<lambda>n b. 2 * n + (if b then 1 else 0)) 0 (replicate k False) = (0::nat)"
    by (induction k) simp_all
  then show ?thesis by (simp add: parseInt2_def)
qed

lemma length_toString2: "n < 2 ^ Suc k \<Longrightarrow> length (toString2 n) \<le> Suc k"
proof (induction n arbitrary: k rule: toString2.induct)
  case (1 n)
  show ?case
  proof (cases "n < 2")
    case True
    then show ?thesis by (subst toString2.simps) simp
  next
    case False
    then obtain k' where k: "k = Suc k'" using "1.prems" by (cases k) auto
    have "n div 2 < 2 ^ Suc k'" using "1.prems" k by auto
    then have "length (toString2 (n div 2)) \<le> Suc k'" using "1.IH" False by simp
    then show ?thesis using False k by (subst toString2.simps) simp
  qed
qed

lemma padStart8_byte:
  assumes "c < 256"
  shows "length (padStart8 (toString2 c)) = 8" and "parseInt2 (padStart8 (toString2 c)) = c"
proof -
  have "c < 2 ^ Suc 7" using assms by simp
  then have "length (toString2 c) \<le> 8" using length_toString2[of c 7] by simp
  then show "length (padStart8 (toString2 c)) = 8" by (simp add: padStart8_def)
  show "parseInt2 (padStart8 (toString2 c)) = c"
    by (simp add: padStart8_def parseInt2_zeros parseInt2_toString2)
qed

lemma length_textToBinary:
  "\<forall>c \<in> set s. c < 256 \<Longrightarrow> length (textToBinary s) = 8 * length s"
  by (induction s) (simp_all add: textToBinary_def padStart8_byte)

lemma bytes_of_append:
  "length x = 8 \<Longrightarrow> bytes_of (x @ ys) = x # bytes_of ys"
  by (cases x) simp_all

lemma bytes_of_textToBinary:
  "\<forall>c \<in> set s. c < 256 \<Longrightarrow> map parseInt2 (bytes_of (textToBinary s)) = s"
proof (induction s)
  case Nil
  then show ?case by (simp add: textToBinary_def)
next
  case (Cons c s)
  then have c: "c < 256" by simp
  have "textToBinary (c # s) = padStart8 (toString2 c) @ textToBinary s"
    by (simp add: textToBinary_def)
  then show ?case
    using Cons padStart8_byte[OF c] by (simp add: bytes_of_append)
qed

lemma binaryToText_textToBinary:
  assumes "\<forall>c \<in> set s. c < 256"
  shows "binaryToText (textToBinary s) = s"
proof -
  have "length (textToBinary s) = 8 * length s" using assms by (rule length_textToBinary)
  then have "padEnd8 (textToBinary s) = textToBinary s" by (simp add: padEnd8_def)
  then show ?thesis using bytes_of_textToBinary[OF assms] by (simp add: binaryToText_def)
qed

lemma clean_carrier_plain:
  "noBreakSpace \<notin> set tx \<Longrightarrow> zeroWidthSpace \<notin> set tx \<Longrightarrow> clean_carrier tx"
  unfolding clean_carrier_def by (metis Suc_lessD nth_mem)

definition carrier16 :: "cu list" where
  "carrier16 = 65 # replicate 16 regularSpace @ [66]"

subsection \<open>Embedding leaves the other characters alone\<close>

text \<open>
  C8.  With enough spaces for the payload bits, embedding with the spaces channel
  succeeds, and the characters of the input other than the space U+0020 occur in the
  output unchanged and in the same order; with the default replacement (no zero-width
  space) the output has the length of the input and agrees with it at every position that
  does not hold a space.
\<close>

theorem embed_spaces_frame:
  assumes "length (textToBinary (json_stringify payload)) \<le> count_list tx regularSpace"
  shows "\<exists>out. embed_spaces json_stringify useZeroWidth tx payload = Inr out \<and>
     subseq (filter (\<lambda>c. c \<noteq> regularSpace) tx) out \<and>
     (\<not> useZeroWidth \<longrightarrow> length out = length tx \<and>
        (\<forall>i < length tx. tx ! i \<noteq> regularSpace \<longrightarrow> out ! i = tx ! i))"
proof -
  let ?bits = "textToBinary (json_stringify payload)"
  have "embed_spaces json_stringify useZeroWidth tx payload = Inr (subst_spaces useZeroWidth ?bits tx)"
    using assms by (simp add: embed_spaces_def embedWithSpaces_ok)
  moreover have "subseq (filter (\<lambda>c. c \<noteq> regularSpace) tx) (subst_spaces useZeroWidth ?bits tx)"
    by (rule subseq_subst_spaces)
  moreover have "\<not> useZeroWidth \<longrightarrow> length (subst_spaces useZeroWidth ?bits tx) = length tx \<and>
        (\<forall>i < length tx. tx ! i \<noteq> regularSpace \<longrightarrow> subst_spaces useZeroWidth ?bits tx ! i = tx ! i)"
    using subst_spaces_positions[of ?bits tx] by simp
  ultimately show ?thesis by blast
qed

theorem embed_spaces_frame_witness:
  "\<exists>out. embed_spaces json_stringify_empty False carrier16 () = Inr out \<and>
     subseq [65, 66] out \<and> length out = 18 \<and> out ! 0 = 65 \<and> out ! 17 = 66"
proof -
  have cap: "length (textToBinary (json_stringify_empty ())) \<le> count_list carrier16 regularSpace"
    by code_simp
  have f: "filter (\<lambda>c. c \<noteq> regularSpace) carrier16 = [65, 66]"
    by code_simp
  have l: "length carrier16 = 18" "carrier16 ! 0 = 65" "carrier16 ! 17 = 66"
      "carrier16 ! 0 \<noteq> regularSpace" "carrier16 ! 17 \<noteq> regularSpace"
    by code_simp+
  from embed_spaces_frame[of json_stringify_empty "()" carrier16 False, OF cap]
  obtain out where o: "embed_spaces json_stringify_empty False carrier16 () = Inr out"
    and s: "subseq (filter (\<lambda>c. c \<noteq> regularSpace) carrier16) out"
    and n: "length out = length carrier16"
    and p: "\<forall>i < length carrier16. carrier16 ! i \<noteq> regularSpace \<longrightarrow> out ! i = carrier16 ! i"
    by auto
  have "out ! 0 = 65" using p[rule_format, of 0] l by simp
  moreover have "out ! 17 = 66" using p[rule_format, of 17] l by simp
  ultimately show ?thesis using o s n f l by auto
qed

subsection \<open>Round trip on the spaces channel\<close>

text \<open>
  C1 (as amended).  When the serialized payload has only code units below 256 (and at
  least two of them), the text has exactly as many spaces U+0020 as the payload has bits,
  no no-break space U+00A0 and no zero-width space U+200B directly before a space, then
  embedding with the spaces channel succeeds and extracting from the result gives the
  payload back, for both replacements of a one bit.
\<close>

theorem spaces_roundtrip:
  assumes parse: "json_parse (json_stringify payload) = Some payload"
    and bytes: "\<forall>c \<in> set (json_stringify payload). c < 256"
    and two: "2 \<le> length (json_stringify payload)"
    and exact: "count_list tx regularSpace = length (textToBinary (json_stringify payload))"
    and clean: "clean_carrier tx"
  shows "\<exists>out. embed_spaces json_stringify useZeroWidth tx payload = Inr out \<and>
     extract_spaces json_parse out = Some payload"
proof -
  let ?s = "json_stringify payload"
  let ?bits = "textToBinary ?s"
  let ?out = "subst_spaces useZeroWidth ?bits tx"
  have emb: "embed_spaces json_stringify useZeroWidth tx payload = Inr ?out"
    using exact by (simp add: embed_spaces_def embedWithSpaces_ok)
  have ok: "carrier_ok None tx" using clean by (rule clean_carrier_ok) simp
  have scan: "extract_scan None ?out = ?bits"
    using scan_walk[OF ok, of ?bits useZeroWidth] exact by simp
  have "length ?bits = 8 * length ?s" using bytes by (rule length_textToBinary)
  then have "\<not> length ?bits < 16" using two by simp
  then have "extractFromSpaces ?out = Some ?bits"
    using scan by (simp add: extractFromSpaces_def)
  then have "extract_spaces json_parse ?out = Some payload"
    using binaryToText_textToBinary[OF bytes] parse by (simp add: extract_spaces_def)
  with emb show ?thesis by blast
qed

theorem spaces_roundtrip_witness:
  "\<exists>out. embed_spaces json_stringify_empty True carrier16 () = Inr out \<and>
     extract_spaces json_parse_empty out = Some ()"
proof -
  have 1: "json_parse_empty (json_stringify_empty ()) = Some ()" by code_simp
  have 2: "\<forall>c \<in> set (json_stringify_empty ()). c < 256" by (simp add: json_stringify_empty_def)
  have 3: "2 \<le> length (json_stringify_empty ())" by (simp add: json_stringify_empty_def)
  have 4: "count_list carrier16 regularSpace = length (textToBinary (json_stringify_empty ()))"
    by code_simp
  have 5: "clean_carrier carrier16"
    by (rule clean_carrier_plain)
      (simp_all add: carrier16_def noBreakSpace_def zeroWidthSpace_def regularSpace_def)
  show ?thesis using spaces_roundtrip[of json_parse_empty json_stringify_empty "()" carrier16 True, OF 1 2 3 4 5] .
qed

text \<open>
  C1 as stated fails when the text has more spaces than the payload has bits: the scan
  emits a bit for every space, the seventeenth bit becomes a third character U+0000
  behind \<open>{}\<close>, and \<open>JSON.parse\<close> rejects the text, so \<open>extract\<close> returns
  \<open>null\<close>.
\<close>

theorem spaces_roundtrip_counterexample:
  "json_parse_empty (json_stringify_empty ()) = Some () \<and>
   length (textToBinary (json_stringify_empty ())) = 16 \<and>
   count_list (replicate 17 regularSpace) regularSpace = 17 \<and>
   embed_spaces json_stringify_empty False (replicate 17 regularSpace) ()
     = Inr [32, 160, 160, 160, 160, 32, 160, 160, 32, 160, 160, 160, 160, 160, 32, 160, 32] \<and>
   map_option binaryToText
     (extractFromSpaces [32, 160, 160, 160, 160, 32, 160, 160, 32, 160, 160, 160, 160, 160, 32, 160, 32])
     = Some [123, 125, 0] \<and>
   extract_spaces json_parse_empty
     [32, 160, 160, 160, 160, 32, 160, 160, 32, 160, 160, 160, 160, 160, 32, 160, 32] = None"
  by code_simp

section \<open>JSON values\<close>

text \<open>The trees held by metadata layers and hashed by the identifier factory.  An object
  is the list of its properties in enumeration order.\<close>

datatype json =
  JNull | JBool bool | JNum int | JStr string | JArr "json list" | JObj "(string \<times> json) list"

text \<open>\<open>o[k] = v\<close> on an object: a present key keeps its place, a new key goes last.\<close>

definition obj_set :: "string \<Rightarrow> json \<Rightarrow> (string \<times> json) list \<Rightarrow> (string \<times> json) list" where
  "obj_set k v kvs = AList.update k v kvs"

text \<open>\<open>Object.assign(target, source)\<close> and the spread \<open>{...target, ...source}\<close>.\<close>

definition obj_assign :: "(string \<times> json) list \<Rightarrow> (string \<times> json) list \<Rightarrow> (string \<times> json) list" where
  "obj_assign target source = fold (\<lambda>(k, v). obj_set k v) source target"

section \<open>Hierarchical metadata (selective view)\<close>

definition DID :: string where "DID = ''did''"
definition C2PA :: string where "C2PA = ''c2pa''"
definition MODEL_CARD :: string where "MODEL_CARD = ''modelCard''"
definition DATA_SHEET :: string where "DATA_SHEET = ''dataSheet''"
definition PROV :: string where "PROV = ''prov''"
definition MPEG21_REL :: string where "MPEG21_REL = ''mpeg21Rel''"
definition GENERAL :: string where "GENERAL = ''general''"

definition JSON_LD :: string where "JSON_LD = ''jsonld''"
definition CBOR :: string where "CBOR = ''cbor''"
definition TLV :: string where "TLV = ''tlv''"
definition JSON :: string where "JSON = ''json''"
definition XML :: string where "XML = ''xml''"

text \<open>A \<open>MetadataLayer\<close>: its standard tag, its data object and the ISO rendering of
  its \<open>updated\<close> date.\<close>

record layer =
  ltype :: string
  ldata :: "(string \<times> json) list"
  lupdated :: string

text \<open>\<open>MetadataLayer.get(field, defaultValue)\<close>: the walk along the dot path.
  \<open>None\<close> is \<open>undefined\<close>.  A \<open>null\<close> or a primitive on the way gives the
  default; reading an element or the length of an array through a path is left out.\<close>

fun walk :: "string list \<Rightarrow> json option \<Rightarrow> json option" where
  "walk [] v = v"
| "walk (part # parts) v =
     (case v of
        Some (JObj kvs) \<Rightarrow> walk parts (map_of kvs part)
      | _ \<Rightarrow> None)"

definition layer_get :: "layer \<Rightarrow> string \<Rightarrow> json \<Rightarrow> json" where
  "layer_get l field defaultValue =
     (case walk (js_split CHR ''.'' field) (Some (JObj (ldata l))) of
        Some v \<Rightarrow> v | None \<Rightarrow> defaultValue)"

definition getData :: "layer \<Rightarrow> json" where
  "getData l = JObj (ldata l)"

definition toC2PAManifest :: "layer \<Rightarrow> json" where
  "toC2PAManifest l = JObj (ldata l)"

text \<open>\<open>[first, ...v]\<close>: spreading an array gives its elements, a string its characters;
  anything else is not iterable and throws.\<close>

definition spread_iter :: "json \<Rightarrow> error + json list" where
  "spread_iter v =
     (case v of JArr xs \<Rightarrow> Inr xs
      | JStr s \<Rightarrow> Inr (map (\<lambda>c. JStr [c]) s)
      | _ \<Rightarrow> Inl (Error ''not iterable''))"

definition toDIDDocument :: "layer \<Rightarrow> error + (string \<times> json) list" where
  "toDIDDocument l =
     (case spread_iter (layer_get l ''context'' (JArr [])) of
        Inl e \<Rightarrow> Inl e
      | Inr ctx \<Rightarrow> Inr
         [(''@context'', JArr (JStr ''https://www.w3.org/ns/did/v1'' # ctx)),
          (''id'', layer_get l ''id'' JNull),
          (''controller'', layer_get l ''controller'' JNull),
          (''verificationMethod'', layer_get l ''verificationMethod'' (JArr [])),
          (''authentication'', layer_get l ''authentication'' (JArr [])),
          (''service'', layer_get l ''service'' (JArr [])),
          (''created'', layer_get l ''created'' JNull),
          (''updated'', layer_get l ''updated'' (JStr (lupdated l)))])"

definition toPROVJSON :: "layer \<Rightarrow> json" where
  "toPROVJSON l = JObj
     [(''prefix'', layer_get l ''prefix'' (JObj [])),
      (''entity'', layer_get l ''entity'' (JObj [])),
      (''activity'', layer_get l ''activity'' (JObj [])),
      (''agent'', layer_get l ''agent'' (JObj [])),
      (''wasGeneratedBy'', layer_get l ''wasGeneratedBy'' (JObj [])),
      (''used'', layer_get l ''used'' (JObj [])),
      (''wasAttributedTo'', layer_get l ''wasAttributedTo'' (JObj [])),
      (''wasDerivedFrom'', layer_get l ''wasDerivedFrom'' (JObj [])),
      (''wasAssociatedWith'', layer_get l ''wasAssociatedWith'' (JObj []))]"

text \<open>The manager: the seven layer slots (\<open>None\<close> for \<open>null\<close>) and the default
  serialization format of its options.\<close>

record manager =
  defaultFormat :: string
  layers :: "string \<rightharpoonup> layer"

definition new_manager :: manager where
  "new_manager = \<lparr>defaultFormat = JSON_LD, layers = Map.empty\<rparr>"

definition setIdentificationLayer :: "(string \<times> json) list \<Rightarrow> string \<Rightarrow> manager \<Rightarrow> manager" where
  "setIdentificationLayer didData now m =
     m\<lparr>layers := (layers m)(DID \<mapsto> \<lparr>ltype = DID, ldata = didData, lupdated = now\<rparr>)\<rparr>"

definition setProvenanceLayer :: "(string \<times> json) list \<Rightarrow> string \<Rightarrow> manager \<Rightarrow> manager" where
  "setProvenanceLayer provenanceData now m =
     m\<lparr>layers := (layers m)(C2PA \<mapsto> \<lparr>ltype = C2PA, ldata = provenanceData, lupdated = now\<rparr>)\<rparr>"

definition characteristics_standard :: "string \<Rightarrow> string" where
  "characteristics_standard resourceType =
     (if resourceType = ''ai-model'' then MODEL_CARD
      else if resourceType = ''dataset'' then DATA_SHEET else GENERAL)"

definition setCharacteristicsLayer :: "string \<Rightarrow> (string \<times> json) list \<Rightarrow> string \<Rightarrow> manager \<Rightarrow> manager" where
  "setCharacteristicsLayer resourceType characteristicsData now m =
     m\<lparr>layers := (layers m)(characteristics_standard resourceType \<mapsto>
          \<lparr>ltype = characteristics_standard resourceType,
           ldata = obj_assign [(''resourceType'', JStr resourceType)] characteristicsData,
           lupdated = now\<rparr>)\<rparr>"

definition setLineageLayer :: "(string \<times> json) list \<Rightarrow> string \<Rightarrow> manager \<Rightarrow> manager" where
  "setLineageLayer lineageData now m =
     m\<lparr>layers := (layers m)(PROV \<mapsto> \<lparr>ltype = PROV, ldata = lineageData, lupdated = now\<rparr>)\<rparr>"

definition setRightsLayer :: "(string \<times> json) list \<Rightarrow> string \<Rightarrow> manager \<Rightarrow> manager" where
  "setRightsLayer rightsData now m =
     m\<lparr>layers := (layers m)(MPEG21_REL \<mapsto> \<lparr>ltype = MPEG21_REL, ldata = rightsData, lupdated = now\<rparr>)\<rparr>"

text \<open>\<open>_serialize\<close>.  The documents here are JSON trees, on which
  \<open>JSON.parse(JSON.stringify(x))\<close> is the identity.\<close>

definition serialize :: "(string \<times> json) list \<Rightarrow> string \<Rightarrow> error + (string \<times> json) list" where
  "serialize metadata format =
     (if format = JSON_LD then Inr metadata
      else if format = JSON then Inr metadata
      else if format = CBOR then Inl (Error ''CBOR serialization not implemented'')
      else if format = TLV then Inl (Error ''TLV serialization not implemented'')
      else if format = XML then Inl (Error ''XML serialization not implemented'')
      else Inl (Error ''Unsupported serialization format''))"

text \<open>One turn of the loop over the requested tags, on the document built so far.\<close>

definition add_requested :: "manager \<Rightarrow> string \<Rightarrow> error + (string \<times> json) list \<Rightarrow> error + (string \<times> json) list" where
  "add_requested m tag acc =
     (case acc of
        Inl e \<Rightarrow> Inl e
      | Inr selective \<Rightarrow>
         (case layers m tag of
            None \<Rightarrow> Inr selective
          | Some l \<Rightarrow>
             if tag = DID then
               (case toDIDDocument l of Inl e \<Rightarrow> Inl e | Inr d \<Rightarrow> Inr (obj_assign selective d))
             else if tag = C2PA then Inr (obj_set ''provenance'' (toC2PAManifest l) selective)
             else if tag = MODEL_CARD then Inr (obj_set ''modelCard'' (getData l) selective)
             else if tag = DATA_SHEET then Inr (obj_set ''dataSheet'' (getData l) selective)
             else if tag = PROV then Inr (obj_set ''lineage'' (toPROVJSON l) selective)
             else if tag = MPEG21_REL then Inr (obj_set ''rights'' (getData l) selective)
             else if tag = GENERAL then Inr (obj_set ''characteristics'' (getData l) selective)
             else Inr selective))"

definition createSelectiveView :: "manager \<Rightarrow> string list \<Rightarrow> string option \<Rightarrow> error + (string \<times> json) list" where
  "createSelectiveView m requested format =
     (let selective0 = [(''@context'', JArr [JStr ''https://www.w3.org/ns/did/v1''])];
          selective1 = (case layers m DID of
                          None \<Rightarrow> selective0
                        | Some idLayer \<Rightarrow> obj_set ''id'' (layer_get idLayer ''id'' JNull) selective0)
      in case fold (add_requested m) requested (Inr selective1) of
           Inl e \<Rightarrow> Inl e
         | Inr selective \<Rightarrow> serialize selective (case format of None \<Rightarrow> defaultFormat m | Some f \<Rightarrow> f))"

text \<open>A bundle with all five layers.\<close>

definition full_bundle :: manager where
  "full_bundle =
     setRightsLayer [(''license'', JObj [(''type'', JStr ''CC-BY-4.0'')])] ''T5''
      (setLineageLayer [(''entity'', JObj [(''e1'', JObj [])])] ''T4''
        (setCharacteristicsLayer ''text'' [(''name'', JStr ''doc'')] ''T3''
          (setProvenanceLayer [(''claim'', JObj [(''generator'', JStr ''tool'')])] ''T2''
            (setIdentificationLayer [(''id'', JStr ''did:asset:text:abc''), (''controller'', JStr ''did:asset:text:abc'')] ''T1''
              new_manager))))"

text \<open>
  C9.  On a bundle with all five layers and the default format, the selective view for the
  provenance and rights tags is the document with exactly the keys \<open>@context\<close>,
  \<open>id\<close> (the identity layer's id), \<open>provenance\<close> and \<open>rights\<close> (the two data
  objects): the characteristics and lineage layers, not requested, have no key at all.
\<close>

theorem selective_view_provenance_rights:
  assumes "layers m DID = Some idLayer" and "layers m C2PA = Some provLayer"
    and "layers m MPEG21_REL = Some rightsLayer" and "layers m PROV = Some lineageLayer"
    and "layers m MODEL_CARD \<noteq> None \<or> layers m DATA_SHEET \<noteq> None \<or> layers m GENERAL \<noteq> None"
    and "defaultFormat m = JSON_LD"
  shows "createSelectiveView m [C2PA, MPEG21_REL] None = Inr
     [(''@context'', JArr [JStr ''https://www.w3.org/ns/did/v1'']),
      (''id'', layer_get idLayer ''id'' JNull),
      (''provenance'', JObj (ldata provLayer)),
      (''rights'', JObj (ldata rightsLayer))]"
  using assms
  by (simp add: createSelectiveView_def add_requested_def serialize_def obj_set_def
      toC2PAManifest_def getData_def DID_def C2PA_def MPEG21_REL_def MODEL_CARD_def DATA_SHEET_def
      PROV_def GENERAL_def JSON_LD_def)

theorem selective_view_provenance_rights_witness:
  "createSelectiveView full_bundle [C2PA, MPEG21_REL] None = Inr
     [(''@context'', JArr [JStr ''https://www.w3.org/ns/did/v1'']),
      (''id'', JStr ''did:asset:text:abc''),
      (''provenance'', JObj [(''claim'', JObj [(''generator'', JStr ''tool'')])]),
      (''rights'', JObj [(''license'', JObj [(''type'', JStr ''CC-BY-4.0'')])])]"
proof -
  let ?il = "\<lparr>ltype = DID, ldata = [(''id'', JStr ''did:asset:text:abc''), (''controller'', JStr ''did:asset:text:abc'')], lupdated = ''T1''\<rparr>"
  let ?pl = "\<lparr>ltype = C2PA, ldata = [(''claim'', JObj [(''generator'', JStr ''tool'')])], lupdated = ''T2''\<rparr>"
  let ?rl = "\<lparr>ltype = MPEG21_REL, ldata = [(''license'', JObj [(''type'', JStr ''CC-BY-4.0'')])], lupdated = ''T5''\<rparr>"
  let ?ll = "\<lparr>ltype = PROV, ldata = [(''entity'', JObj [(''e1'', JObj [])])], lupdated = ''T4''\<rparr>"
  have defs: "DID = ''did''" "C2PA = ''c2pa''" "MPEG21_REL = ''mpeg21Rel''" "PROV = ''prov''"
      "GENERAL = ''general''" "MODEL_CARD = ''modelCard''" "DATA_SHEET = ''dataSheet''"
    by (simp_all add: DID_def C2PA_def MPEG21_REL_def PROV_def GENERAL_def MODEL_CARD_def DATA_SHEET_def)
  have 1: "layers full_bundle DID = Some ?il"
    by (simp add: full_bundle_def setRightsLayer_def setLineageLayer_def setCharacteristicsLayer_def
        setProvenanceLayer_def setIdentificationLayer_def new_manager_def characteristics_standard_def defs)
  have 2: "layers full_bundle C2PA = Some ?pl"
    by (simp add: full_bundle_def setRightsLayer_def setLineageLayer_def setCharacteristicsLayer_def
        setProvenanceLayer_def setIdentificationLayer_def new_manager_def characteristics_standard_def defs)
  have 3: "layers full_bundle MPEG21_REL = Some ?rl"
    by (simp add: full_bundle_def setRightsLayer_def setLineageLayer_def setCharacteristicsLayer_def
        setProvenanceLayer_def setIdentificationLayer_def new_manager_def characteristics_standard_def defs)
  have 4: "layers full_bundle PROV = Some ?ll"
    by (simp add: full_bundle_def setRightsLayer_def setLineageLayer_def setCharacteristicsLayer_def
        setProvenanceLayer_def setIdentificationLayer_def new_manager_def characteristics_standard_def defs)
  have 5: "layers full_bundle MODEL_CARD \<noteq> None \<or> layers full_bundle DATA_SHEET \<noteq> None \<or> layers full_bundle GENERAL \<noteq> None"
    by (simp add: full_bundle_def setRightsLayer_def setLineageLayer_def setCharacteristicsLayer_def
        setProvenanceLayer_def setIdentificationLayer_def new_manager_def characteristics_standard_def defs)
  have 6: "defaultFormat full_bundle = JSON_LD"
    by (simp add: full_bundle_def setRightsLayer_def setLineageLayer_def setCharacteristicsLayer_def
        setProvenanceLayer_def setIdentificationLayer_def new_manager_def)
  have g: "layer_get ?il ''id'' JNull = JStr ''did:asset:text:abc''"
    by (simp add: layer_get_def)
  show ?thesis
    using selective_view_provenance_rights[OF 1 2 3 4 5 6] g by simp
qed

section \<open>Canonical serialization and hashing (DIDFactory.\_generateHash)\<close>

text \<open>\<open>QuoteJSONString\<close> on strings of code units below 256.\<close>

definition hex_digit :: "nat \<Rightarrow> char" where
  "hex_digit n = (''0123456789abcdef'') ! (n mod 16)"

definition escape_char :: "char \<Rightarrow> string" where
  "escape_char c =
     (if c = CHR 0x22 then [CHR 0x5C, CHR 0x22]
      else if c = CHR 0x5C then [CHR 0x5C, CHR 0x5C]
      else if c = CHR 0x08 then [CHR 0x5C, CHR ''b'']
      else if c = CHR 0x09 then [CHR 0x5C, CHR ''t'']
      else if c = CHR 0x0A then [CHR 0x5C, CHR ''n'']
      else if c = CHR 0x0C then [CHR 0x5C, CHR ''f'']
      else if c = CHR 0x0D then [CHR 0x5C, CHR ''r'']
      else if of_char c < (32::nat)
        then [CHR 0x5C, CHR ''u'', CHR ''0'', CHR ''0'', hex_digit (of_char c div 16), hex_digit (of_char c)]
      else [c])"

definition quote :: "string \<Rightarrow> string" where
  "quote s = CHR 0x22 # concat (map escape_char s) @ [CHR 0x22]"

text \<open>The decimal rendering of an integer.\<close>

fun show_nat :: "nat \<Rightarrow> string" where
  "show_nat n = (if n < 10 then [hex_digit n] else show_nat (n div 10) @ [hex_digit (n mod 10)])"

declare show_nat.simps [simp del]

definition show_int :: "int \<Rightarrow> string" where
  "show_int i = (if i < 0 then CHR ''-'' # show_nat (nat (- i)) else show_nat (nat i))"

text \<open>\<open>partial.join(',')\<close>.\<close>

fun join_comma :: "string list \<Rightarrow> string" where
  "join_comma [] = []"
| "join_comma [s] = s"
| "join_comma (s # t # ss) = s @ '','' @ join_comma (t # ss)"

text \<open>
  \<open>JSON.stringify(value, replacerArray)\<close> without indentation.  The array replacer is
  the property list \<open>K\<close>: of every object, at every depth, exactly the properties named in
  \<open>K\<close> that the object has are written, in the order of \<open>K\<close>.
\<close>

fun stringify :: "string list \<Rightarrow> json \<Rightarrow> string" where
  "stringify K JNull = ''null''"
| "stringify K (JBool b) = (if b then ''true'' else ''false'')"
| "stringify K (JNum n) = show_int n"
| "stringify K (JStr s) = quote s"
| "stringify K (JArr xs) = ''['' @ join_comma (map (stringify K) xs) @ '']''"
| "stringify K (JObj kvs) =
     (let members = map (\<lambda>(k, v). (k, stringify K v)) kvs in
      ''{'' @ join_comma (concat (map (\<lambda>k. case map_of members k of
                                              None \<Rightarrow> []
                                            | Some s \<Rightarrow> [quote k @ '':'' @ s]) K)) @ ''}'')"

text \<open>\<open>Object.keys(resource).sort()\<close>: the default sort compares strings by code
  units.\<close>

definition sorted_keys :: "(string \<times> json) list \<Rightarrow> string list" where
  "sorted_keys kvs = sort (map fst kvs)"

subsection \<open>Byte encodings\<close>

type_synonym byte = "8 word"

text \<open>\<open>digest('hex')\<close> and \<open>buf.toString('hex')\<close>: two lower-case digits a byte.\<close>

definition hex_of_byte :: "byte \<Rightarrow> string" where
  "hex_of_byte b = [hex_digit (unat b div 16), hex_digit (unat b mod 16)]"

definition to_hex :: "byte list \<Rightarrow> string" where
  "to_hex bs = concat (map hex_of_byte bs)"

definition hex_val :: "char \<Rightarrow> nat option" where
  "hex_val c =
     (case findIndex (\<lambda>d. d = c) ''0123456789abcdef'' of
        Some i \<Rightarrow> Some i
      | None \<Rightarrow> map_option (\<lambda>i. i + 10) (findIndex (\<lambda>d. d = c) ''ABCDEF''))"

text \<open>\<open>Buffer.from(s, 'hex')\<close>: pairs of hex digits, cut at the first pair that is not
  one.\<close>

fun from_hex :: "string \<Rightarrow> byte list" where
  "from_hex (a # b # rest) =
     (case (hex_val a, hex_val b) of
        (Some h, Some l) \<Rightarrow> of_nat (16 * h + l) # from_hex rest
      | _ \<Rightarrow> [])"
| "from_hex _ = []"

definition b64_alphabet :: string where
  "b64_alphabet = ''ABCDEFGHIJKLMNOPQRSTUVWXYZabcdefghijklmnopqrstuvwxyz0123456789+/''"

definition b64_char :: "nat \<Rightarrow> char" where
  "b64_char n = b64_alphabet ! n"

text \<open>The 6-bit groups of a byte string, the last group filled with zero bits.\<close>

fun sextets :: "byte list \<Rightarrow> nat list" where
  "sextets [] = []"
| "sextets [a] = [unat a div 4, (unat a mod 4) * 16]"
| "sextets [a, b] = [unat a div 4, (unat a mod 4) * 16 + unat b div 16, (unat b mod 16) * 4]"
| "sextets (a # b # c # rest) =
     [unat a div 4, (unat a mod 4) * 16 + unat b div 16, (unat b mod 16) * 4 + unat c div 64,
      unat c mod 64] @ sextets rest"

text \<open>\<open>buf.toString('base64')\<close>: the digits of the groups, padded with \<open>=\<close> to a
  multiple of four characters.\<close>

definition to_base64 :: "byte list \<Rightarrow> string" where
  "to_base64 bs = map b64_char (sextets bs) @ replicate ((3 - length bs mod 3) mod 3) CHR ''=''"

text \<open>The value of a base64 digit; Node's decoder reads the URL-safe digits as well.\<close>

definition b64_val :: "char \<Rightarrow> nat option" where
  "b64_val c =
     (if c = CHR ''-'' then Some 62 else if c = CHR ''_'' then Some 63
      else findIndex (\<lambda>d. d = c) b64_alphabet)"

fun unsextets :: "nat list \<Rightarrow> byte list" where
  "unsextets (s0 # s1 # s2 # s3 # rest) =
     [of_nat (s0 * 4 + s1 div 16), of_nat ((s1 mod 16) * 16 + s2 div 4), of_nat ((s2 mod 4) * 64 + s3)]
       @ unsextets rest"
| "unsextets [s0, s1, s2] = [of_nat (s0 * 4 + s1 div 16), of_nat ((s1 mod 16) * 16 + s2 div 4)]"
| "unsextets [s0, s1] = [of_nat (s0 * 4 + s1 div 16)]"
| "unsextets _ = []"

text \<open>\<open>Buffer.from(s, 'base64')\<close>: the digits up to the first \<open>=\<close>, characters that
  are no digits skipped.\<close>

definition from_base64 :: "string \<Rightarrow> byte list" where
  "from_base64 s = unsextets (List.map_filter b64_val (takeWhile (\<lambda>c. c \<noteq> CHR ''='') s))"

text \<open>\<open>s.replace(/x/g, y)\<close> and \<open>s.replace(/x/g, '')\<close> for a single character.\<close>

definition replace_char :: "char \<Rightarrow> char \<Rightarrow> string \<Rightarrow> string" where
  "replace_char x y s = map (\<lambda>c. if c = x then y else c) s"

definition remove_char :: "char \<Rightarrow> string \<Rightarrow> string" where
  "remove_char x s = filter (\<lambda>c. c \<noteq> x) s"

section \<open>Identifier factory (DIDFactory)\<close>

text \<open>What \<open>_generateHash\<close> and \<open>generateDID\<close> are given as the resource: a
  \<open>Buffer\<close>, a JSON value (a string among them) or \<open>undefined\<close>.  \<open>sha256\<close> is the
  digest function of the \<open>crypto\<close> module, from the bytes fed to the digest bytes.\<close>

datatype resource = RBuffer string | RValue json | RUndefined

text \<open>\<open>Object.keys\<close> of an array: its indices.\<close>

definition array_keys :: "json list \<Rightarrow> string list" where
  "array_keys xs = map show_nat [0..<length xs]"

definition generateHash :: "(string \<Rightarrow> byte list) \<Rightarrow> resource \<Rightarrow> error + string" where
  "generateHash sha256 r =
     (case r of
        RBuffer b \<Rightarrow> Inr (to_hex (sha256 b))
      | RValue (JStr s) \<Rightarrow> Inr (to_hex (sha256 s))
      | RValue (JObj kvs) \<Rightarrow> Inr (to_hex (sha256 (stringify (sorted_keys kvs) (JObj kvs))))
      | RValue (JArr xs) \<Rightarrow> Inr (to_hex (sha256 (stringify (sort (array_keys xs)) (JArr xs))))
      | RValue JNull \<Rightarrow> Inl (Error ''Cannot convert undefined or null to object'')
      | _ \<Rightarrow> Inl (Error ''Unsupported resource type for hashing''))"

definition AI_MODEL :: string where "AI_MODEL = ''ai-model''"
definition DATASET :: string where "DATASET = ''dataset''"
definition CODE :: string where "CODE = ''code''"

definition ASSET :: string where "ASSET = ''asset''"

definition NONE :: string where "NONE = ''none''"
definition BASE58 :: string where "BASE58 = ''base58''"
definition BASE64URL :: string where "BASE64URL = ''base64url''"
definition HEX :: string where "HEX = ''hex''"

text \<open>The object literal \<open>{resource, resourceType, ...specificProps}\<close>; a property
  whose value is \<open>undefined\<close> is not serialized, so it is left out.\<close>

definition wrap_resource :: "resource \<Rightarrow> string \<Rightarrow> (string \<times> json) list \<Rightarrow> (string \<times> json) list" where
  "wrap_resource r resourceType specificProps =
     obj_assign
       ((case r of RValue v \<Rightarrow> [(''resource'', v)] | _ \<Rightarrow> []) @ [(''resourceType'', JStr resourceType)])
       specificProps"

text \<open>\<open>{k1: specificProps.k1 || d1, ..., ...specificProps, resourceType}\<close>: the spread
  puts every property of \<open>specificProps\<close> over the defaults.\<close>

definition with_defaults ::
  "(string \<times> json) list \<Rightarrow> (string \<times> json) list \<Rightarrow> string \<Rightarrow> (string \<times> json) list" where
  "with_defaults defaults specificProps resourceType =
     obj_set ''resourceType'' (JStr resourceType) (obj_assign defaults specificProps)"

definition generateUniqueId ::
  "(string \<Rightarrow> byte list) \<Rightarrow> resource \<Rightarrow> string \<Rightarrow> (string \<times> json) list \<Rightarrow> error + string" where
  "generateUniqueId sha256 r resourceType specificProps =
     (if resourceType = AI_MODEL then
        generateHash sha256 (RValue (JObj (with_defaults
          [(''architecture'', JStr []), (''parametersSize'', JStr []), (''trainingDatasetRef'', JStr [])]
          specificProps resourceType)))
      else if resourceType = DATASET then
        generateHash sha256 (RValue (JObj (with_defaults
          [(''structure'', JStr []), (''sampleCount'', JStr []), (''categories'', JArr [])]
          specificProps resourceType)))
      else if resourceType = CODE then
        generateHash sha256 (RValue (JObj (with_defaults
          [(''language'', JStr []), (''repository'', JStr []), (''path'', JStr [])]
          specificProps resourceType)))
      else (case r of
              RBuffer b \<Rightarrow> generateHash sha256 r
            | RValue (JStr s) \<Rightarrow> generateHash sha256 r
            | _ \<Rightarrow> generateHash sha256 (RValue (JObj (wrap_resource r resourceType specificProps)))))"

definition compressIdentifier :: "string \<Rightarrow> string \<Rightarrow> error + string" where
  "compressIdentifier ident format =
     (if format = NONE then Inr ident
      else if format = BASE58 then Inr (take 32 ident)
      else if format = BASE64URL then
        Inr (remove_char CHR ''='' (replace_char CHR ''/'' CHR ''_'' (replace_char CHR ''+'' CHR ''-''
              (to_base64 (from_hex ident)))))
      else if format = HEX then Inr ident
      else if format = TLV then Inr (take 32 ident)
      else Inl (Error ''Unsupported compression format''))"

text \<open>The factory's options and the options of one \<open>generateDID\<close> call.\<close>

record factory =
  defaultMethod :: string
  defaultCompression :: string
  methodMappings :: "string \<rightharpoonup> string"

record did_options =
  omethod :: "string option"
  compression :: "string option"
  specificProps :: "(string \<times> json) list option"
  owner :: "string option"

definition default_factory :: factory where
  "default_factory =
     \<lparr>defaultMethod = ASSET, defaultCompression = BASE64URL,
      methodMappings = [''text'' \<mapsto> ASSET, ''image'' \<mapsto> ASSET, ''audio'' \<mapsto> ASSET, ''video'' \<mapsto> ASSET,
         AI_MODEL \<mapsto> ASSET, DATASET \<mapsto> ASSET, CODE \<mapsto> ASSET, ''generic'' \<mapsto> ASSET]\<rparr>"

definition did_method :: "factory \<Rightarrow> string \<Rightarrow> did_options \<Rightarrow> string" where
  "did_method f resourceType opts =
     js_or_str (omethod opts) (js_or_str (methodMappings f resourceType) (defaultMethod f))"

definition did_compression :: "factory \<Rightarrow> did_options \<Rightarrow> string" where
  "did_compression f opts = js_or_str (compression opts) (defaultCompression f)"

text \<open>The owner suffix: absent when \<open>options.owner\<close> is falsy.\<close>

definition owner_tag :: "(string \<Rightarrow> byte list) \<Rightarrow> did_options \<Rightarrow> string option" where
  "owner_tag sha256 opts =
     (case owner opts of
        None \<Rightarrow> None
      | Some s \<Rightarrow> if s = [] then None else Some (take 8 (to_hex (sha256 s))))"

definition generateDID ::
  "factory \<Rightarrow> (string \<Rightarrow> byte list) \<Rightarrow> resource \<Rightarrow> string \<Rightarrow> did_options \<Rightarrow> error + string" where
  "generateDID f sha256 r resourceType opts =
     (case generateUniqueId sha256 r resourceType (or_else (specificProps opts) []) of
        Inl e \<Rightarrow> Inl e
      | Inr uniqueId \<Rightarrow>
         (case compressIdentifier uniqueId (did_compression f opts) of
            Inl e \<Rightarrow> Inl e
          | Inr compressedId \<Rightarrow>
              Inr (''did:'' @ did_method f resourceType opts @ '':'' @ resourceType @ '':'' @ compressedId
                   @ (case owner_tag sha256 opts of None \<Rightarrow> [] | Some h \<Rightarrow> '':'' @ h))))"

record did_parts =
  dmethod :: string
  dresourceType :: string
  didentifier :: string
  downer :: "string option"

text \<open>\<open>decompressDID\<close>.  The format is the constant \<open>base64url\<close>, so of the
  \<open>switch\<close> only that case runs.\<close>

definition pad4 :: "string \<Rightarrow> string" where
  "pad4 s = s @ replicate ((4 - length s mod 4) mod 4) CHR ''=''"

definition decompressDID :: "string \<Rightarrow> error + did_parts" where
  "decompressDID did =
     (let parts = js_split CHR '':'' did in
      if length parts < 4 \<or> parts ! 0 \<noteq> ''did'' then Inl (Error ''Invalid DID format'')
      else Inr \<lparr>dmethod = parts ! 1,
                dresourceType = parts ! 2,
                didentifier = to_hex (from_base64
                  (replace_char CHR ''_'' CHR ''/'' (replace_char CHR ''-'' CHR ''+'' (pad4 (parts ! 3))))),
                downer = (if length parts > 4 then Some (parts ! 4) else None)\<rparr>)"

text \<open>Two trees with the same content up to the order in which the keys of their objects
  are listed.\<close>

inductive same_pairs :: "json \<Rightarrow> json \<Rightarrow> bool" where
  null: "same_pairs JNull JNull"
| bool: "same_pairs (JBool b) (JBool b)"
| num: "same_pairs (JNum n) (JNum n)"
| str: "same_pairs (JStr s) (JStr s)"
| arr: "list_all2 same_pairs xs ys \<Longrightarrow> same_pairs (JArr xs) (JArr ys)"
| obj: "distinct (map fst xs) \<Longrightarrow> distinct (map fst ys) \<Longrightarrow>
        set (map fst xs) = set (map fst ys) \<Longrightarrow>
        (\<forall>k v. map_of xs k = Some v \<longrightarrow> (\<exists>w. map_of ys k = Some w \<and> same_pairs v w)) \<Longrightarrow>
        same_pairs (JObj xs) (JObj ys)"


inductive_cases same_pairs_objE: "same_pairs (JObj xs) (JObj ys)"

definition order_ba :: "(string \<times> json) list" where
  "order_ba = [(''b'', JNum 1), (''a'', JObj [(''y'', JStr ''v''), (''a'', JNum 2)])]"

definition order_ab :: "(string \<times> json) list" where
  "order_ab = [(''a'', JObj [(''a'', JNum 2), (''y'', JStr ''v'')]), (''b'', JNum 1)]"

subsection \<open>Key order does not reach the hash\<close>

lemma list_all2_map_eq:
  "list_all2 (\<lambda>x y. f x = f y) xs ys \<Longrightarrow> map f xs = map f ys"
  by (induction rule: list_all2_induct) simp_all

lemma map_of_members:
  "map_of (map (\<lambda>(k, v). (k, f v)) kvs) k = map_option f (map_of kvs k)"
  by (induction kvs) auto

lemma same_pairs_stringify:
  "same_pairs x y \<Longrightarrow> stringify K x = stringify K y"
proof (induction rule: same_pairs.induct)
  case (arr xs ys)
  then have "list_all2 (\<lambda>x y. stringify K x = stringify K y) xs ys"
    by (simp add: list_all2_mono)
  then show ?case by (simp add: list_all2_map_eq)
next
  case (obj xs ys)
  have "map_option (stringify K) (map_of xs k) = map_option (stringify K) (map_of ys k)" for k
  proof (cases "map_of xs k")
    case None
    then have "k \<notin> fst ` set xs" by (simp add: map_of_eq_None_iff)
    then have "k \<notin> fst ` set ys" using obj.hyps(3) by simp
    then have "map_of ys k = None" by (simp add: map_of_eq_None_iff)
    with None show ?thesis by simp
  next
    case (Some v)
    then obtain w where "map_of ys k = Some w" "stringify K v = stringify K w"
      using obj.IH by blast
    with Some show ?thesis by simp
  qed
  then show ?case by (simp add: map_of_members)
qed simp_all

lemma same_pairs_sorted_keys:
  assumes "same_pairs (JObj xs) (JObj ys)"
  shows "sorted_keys xs = sorted_keys ys"
proof -
  from assms have "distinct (map fst xs) \<and> distinct (map fst ys) \<and>
      set (map fst xs) = set (map fst ys)"
    by (elim same_pairs_objE) simp
  then have d: "distinct (map fst xs)" "distinct (map fst ys)"
    and s: "set (map fst xs) = set (map fst ys)"
    by blast+
  show ?thesis
    unfolding sorted_keys_def
    by (rule sorted_distinct_set_unique) (use d s in simp_all)
qed

section \<open>Decoding an identifier\<close>

lemma findIndex_nth:
  "distinct xs \<Longrightarrow> i < length xs \<Longrightarrow> findIndex (\<lambda>d. d = xs ! i) xs = Some i"
proof (induction xs arbitrary: i)
  case Nil
  then show ?case by simp
next
  case (Cons x xs)
  show ?case
  proof (cases i)
    case 0
    then show ?thesis by simp
  next
    case (Suc j)
    with Cons.prems have "xs ! j \<in> set xs" "x \<notin> set xs" by auto
    then have "xs ! j \<noteq> x" by auto
    then show ?thesis using Cons Suc by simp
  qed
qed

lemma hex_val_digit: "n < 16 \<Longrightarrow> hex_val (hex_digit n) = Some n"
proof -
  assume n: "n < 16"
  have d: "distinct ''0123456789abcdef''" by simp
  have "findIndex (\<lambda>d. d = ''0123456789abcdef'' ! n) ''0123456789abcdef'' = Some n"
    using findIndex_nth[OF d, of n] n by simp
  then show ?thesis using n by (simp add: hex_val_def hex_digit_def)
qed

lemma from_hex_to_hex: "from_hex (to_hex bs) = bs"
proof (induction bs)
  case Nil
  then show ?case by (simp add: to_hex_def)
next
  case (Cons b bs)
  have lt: "unat b div 16 < 16"
    using unsigned_less[of b, where ?'a = nat] by simp
  have v: "hex_val (hex_digit (unat b div 16)) = Some (unat b div 16)"
      "hex_val (hex_digit (unat b mod 16)) = Some (unat b mod 16)"
    using lt by (simp_all add: hex_val_digit)
  have "(of_nat (16 * (unat b div 16) + unat b mod 16) :: byte) = b"
    by simp
  then have "from_hex (hex_of_byte b @ to_hex bs) = b # from_hex (to_hex bs)"
    using v by (simp add: hex_of_byte_def)
  then show ?case using Cons by (simp add: to_hex_def)
qed

lemma hex_digit_in: "hex_digit n \<in> set ''0123456789abcdef''"
  unfolding hex_digit_def by (rule nth_mem) simp

lemma to_hex_chars: "set (to_hex bs) \<subseteq> set ''0123456789abcdef''"
proof (induction bs)
  case Nil
  then show ?case by (simp add: to_hex_def)
next
  case (Cons b bs)
  have "set (hex_of_byte b) \<subseteq> set ''0123456789abcdef''"
    using hex_digit_in[of "unat b div 16"] hex_digit_in[of "unat b mod 16"]
    by (simp add: hex_of_byte_def)
  then show ?case using Cons by (simp add: to_hex_def)
qed

lemma sextets_bound: "\<forall>s \<in> set (sextets bs). s < 64"
proof (induction bs rule: sextets.induct)
  case 1
  then show ?case by simp
next
  case (2 a)
  have "unat a < 256" using unsigned_less[of a, where ?'a = nat] by simp
  then show ?case by auto
next
  case (3 a b)
  have "unat a < 256" "unat b < 256"
    using unsigned_less[of a, where ?'a = nat] unsigned_less[of b, where ?'a = nat] by simp_all
  then show ?case by auto
next
  case (4 a b c rest)
  have "unat a < 256" "unat b < 256" "unat c < 256"
    using unsigned_less[of a, where ?'a = nat] unsigned_less[of b, where ?'a = nat]
      unsigned_less[of c, where ?'a = nat] by simp_all
  then show ?case using 4 by auto
qed

lemma regroup:
  fixes a b c :: nat
  assumes "a < 256" "b < 256" "c < 256"
  shows "(a div 4) * 4 + ((a mod 4) * 16 + b div 16) div 16 = a"
    and "(((a mod 4) * 16 + b div 16) mod 16) * 16 + ((b mod 16) * 4 + c div 64) div 4 = b"
    and "(((b mod 16) * 4 + c div 64) mod 4) * 64 + c mod 64 = c"
    and "(((a mod 4) * 16 + b div 16) mod 16) * 16 + ((b mod 16) * 4) div 4 = b"
    and "(a div 4) * 4 + ((a mod 4) * 16) div 16 = a"
proof -
  have b16: "b div 16 < 16" and c64: "c div 64 < 4" using assms by simp_all
  show "(a div 4) * 4 + ((a mod 4) * 16 + b div 16) div 16 = a"
    using b16 by simp
  show "(((a mod 4) * 16 + b div 16) mod 16) * 16 + ((b mod 16) * 4 + c div 64) div 4 = b"
    using b16 c64 by simp
  show "(((b mod 16) * 4 + c div 64) mod 4) * 64 + c mod 64 = c"
    using c64 by simp
  show "(((a mod 4) * 16 + b div 16) mod 16) * 16 + ((b mod 16) * 4) div 4 = b"
    using b16 by simp
  show "(a div 4) * 4 + ((a mod 4) * 16) div 16 = a"
    by simp
qed

lemma unsextets_sextets: "unsextets (sextets bs) = bs"
proof (induction bs rule: sextets.induct)
  case 1
  then show ?case by simp
next
  case (2 a)
  have a: "unat a < 256" using unsigned_less[of a, where ?'a = nat] by simp
  show ?case using regroup(5)[OF a a a] by simp
next
  case (3 a b)
  have a: "unat a < 256" and b: "unat b < 256"
    using unsigned_less[of a, where ?'a = nat] unsigned_less[of b, where ?'a = nat] by simp_all
  show ?case using regroup(1)[OF a b b] regroup(4)[OF a b b] by simp
next
  case (4 a b c rest)
  have a: "unat a < 256" and b: "unat b < 256" and c: "unat c < 256"
    using unsigned_less[of a, where ?'a = nat] unsigned_less[of b, where ?'a = nat]
      unsigned_less[of c, where ?'a = nat] by simp_all
  show ?case using 4 regroup(1)[OF a b c] regroup(2)[OF a b c] regroup(3)[OF a b c] by simp
qed

lemma b64_alphabet_facts:
  "distinct b64_alphabet" "length b64_alphabet = 64"
  "CHR ''-'' \<notin> set b64_alphabet" "CHR ''_'' \<notin> set b64_alphabet"
  "CHR ''='' \<notin> set b64_alphabet" "CHR '':'' \<notin> set b64_alphabet"
  by (simp_all add: b64_alphabet_def)

lemma b64_char_in: "n < 64 \<Longrightarrow> b64_char n \<in> set b64_alphabet"
  by (simp add: b64_char_def b64_alphabet_facts(2))

lemma b64_val_char: "n < 64 \<Longrightarrow> b64_val (b64_char n) = Some n"
proof -
  assume n: "n < 64"
  then have "b64_char n \<noteq> CHR ''-''" "b64_char n \<noteq> CHR ''_''"
    using b64_char_in[OF n] b64_alphabet_facts(3,4) by auto
  then show ?thesis
    using findIndex_nth[OF b64_alphabet_facts(1), of n] n
    by (simp add: b64_val_def b64_char_def b64_alphabet_facts(2))
qed

lemma map_filter_b64:
  "\<forall>s \<in> set ss. s < 64 \<Longrightarrow> List.map_filter b64_val (map b64_char ss) = ss"
  by (induction ss) (simp_all add: List.map_filter_simps b64_val_char)

lemma set_replace_char: "set (replace_char x y s) \<subseteq> insert y (set s)"
  by (auto simp: replace_char_def)

lemma replace_char_back: "y \<notin> set s \<Longrightarrow> replace_char y x (replace_char x y s) = s"
  by (induction s) (auto simp: replace_char_def)

lemma replace_char_commute:
  "x \<noteq> u \<Longrightarrow> v \<noteq> x \<Longrightarrow> y \<noteq> u \<Longrightarrow>
   replace_char x y (replace_char u v s) = replace_char u v (replace_char x y s)"
  by (induction s) (auto simp: replace_char_def)

lemma replace_char_append:
  "replace_char x y (s @ t) = replace_char x y s @ replace_char x y t"
  by (simp add: replace_char_def)

lemma replace_char_pad: "x \<noteq> CHR ''='' \<Longrightarrow> replace_char x y (replicate k CHR ''='') = replicate k CHR ''=''"
  by (simp add: replace_char_def)

text \<open>The digits that \<open>_compressIdentifier\<close> writes for a byte string.\<close>

definition url_digits :: "byte list \<Rightarrow> string" where
  "url_digits bs = replace_char CHR ''/'' CHR ''_'' (replace_char CHR ''+'' CHR ''-'' (map b64_char (sextets bs)))"

lemma digits_in_alphabet: "set (map b64_char (sextets bs)) \<subseteq> set b64_alphabet"
proof
  fix c assume "c \<in> set (map b64_char (sextets bs))"
  then obtain n where "n \<in> set (sextets bs)" "c = b64_char n" by auto
  then show "c \<in> set b64_alphabet" using sextets_bound[of bs] b64_char_in by blast
qed

lemma url_digits_subset:
  "set (url_digits bs) \<subseteq> insert CHR ''_'' (insert CHR ''-'' (set b64_alphabet))"
proof -
  have "set (url_digits bs) \<subseteq> insert CHR ''_'' (set (replace_char CHR ''+'' CHR ''-'' (map b64_char (sextets bs))))"
    unfolding url_digits_def by (rule set_replace_char)
  also have "\<dots> \<subseteq> insert CHR ''_'' (insert CHR ''-'' (set (map b64_char (sextets bs))))"
    using set_replace_char[of "CHR ''+''" "CHR ''-''" "map b64_char (sextets bs)"] by blast
  also have "\<dots> \<subseteq> insert CHR ''_'' (insert CHR ''-'' (set b64_alphabet))"
    using digits_in_alphabet[of bs] by blast
  finally show ?thesis .
qed

lemma url_digits_chars:
  "CHR ''='' \<notin> set (url_digits bs)" "CHR '':'' \<notin> set (url_digits bs)"
proof -
  have "CHR ''='' \<notin> insert CHR ''_'' (insert CHR ''-'' (set b64_alphabet))"
    using b64_alphabet_facts(5) by simp
  then show "CHR ''='' \<notin> set (url_digits bs)" using url_digits_subset[of bs] by blast
  have "CHR '':'' \<notin> insert CHR ''_'' (insert CHR ''-'' (set b64_alphabet))"
    using b64_alphabet_facts(6) by simp
  then show "CHR '':'' \<notin> set (url_digits bs)" using url_digits_subset[of bs] by blast
qed

lemma compress_base64url:
  "compressIdentifier (to_hex bs) BASE64URL = Inr (url_digits bs)"
proof -
  let ?body = "map b64_char (sextets bs)"
  have "replace_char CHR ''/'' CHR ''_'' (replace_char CHR ''+'' CHR ''-'' (?body @ replicate k CHR ''=''))
      = url_digits bs @ replicate k CHR ''=''" for k
    by (simp add: replace_char_append replace_char_pad url_digits_def)
  moreover have "remove_char CHR ''='' (url_digits bs @ replicate k CHR ''='') = url_digits bs" for k
    using url_digits_chars(1)[of bs] by (auto simp: remove_char_def filter_id_conv)
  ultimately have "remove_char CHR ''='' (replace_char CHR ''/'' CHR ''_'' (replace_char CHR ''+'' CHR ''-''
      (to_base64 bs))) = url_digits bs"
    by (simp add: to_base64_def)
  then show ?thesis
    by (simp add: compressIdentifier_def from_hex_to_hex BASE64URL_def NONE_def BASE58_def)
qed

lemma url_digits_back:
  "replace_char CHR ''_'' CHR ''/'' (replace_char CHR ''-'' CHR ''+'' (url_digits bs))
     = map b64_char (sextets bs)"
proof -
  let ?body = "map b64_char (sextets bs)"
  have nm: "CHR ''-'' \<notin> set ?body" and nu: "CHR ''_'' \<notin> set ?body"
    using digits_in_alphabet[of bs] b64_alphabet_facts(3,4) by blast+
  have "replace_char CHR ''-'' CHR ''+'' (url_digits bs)
      = replace_char CHR ''/'' CHR ''_'' (replace_char CHR ''-'' CHR ''+'' (replace_char CHR ''+'' CHR ''-'' ?body))"
    unfolding url_digits_def by (rule replace_char_commute) simp_all
  also have "\<dots> = replace_char CHR ''/'' CHR ''_'' ?body"
    using replace_char_back[OF nm] by simp
  finally show ?thesis using replace_char_back[OF nu] by simp
qed

lemma decode_url_digits:
  "from_base64 (replace_char CHR ''_'' CHR ''/'' (replace_char CHR ''-'' CHR ''+'' (pad4 (url_digits bs)))) = bs"
proof -
  let ?body = "map b64_char (sextets bs)"
  have ne: "\<forall>c \<in> set ?body. c \<noteq> CHR ''=''"
    using digits_in_alphabet[of bs] b64_alphabet_facts(5) by blast
  have "replace_char CHR ''_'' CHR ''/'' (replace_char CHR ''-'' CHR ''+'' (pad4 (url_digits bs)))
      = ?body @ replicate ((4 - length (url_digits bs) mod 4) mod 4) CHR ''=''"
    using url_digits_back[of bs] by (simp add: pad4_def replace_char_append replace_char_pad)
  moreover have "takeWhile (\<lambda>c. c \<noteq> CHR ''='') (?body @ replicate k CHR ''='') = ?body" for k
  proof -
    have "takeWhile (\<lambda>c. c \<noteq> CHR ''='') (replicate k CHR ''='') = []" by (cases k) simp_all
    moreover have "takeWhile (\<lambda>c. c \<noteq> CHR ''='') (?body @ replicate k CHR ''='')
        = ?body @ takeWhile (\<lambda>c. c \<noteq> CHR ''='') (replicate k CHR ''='')"
      by (rule takeWhile_append2) (use ne in blast)
    ultimately show ?thesis by simp
  qed
  moreover have "List.map_filter b64_val ?body = sextets bs"
    using sextets_bound[of bs] by (rule map_filter_b64)
  ultimately show ?thesis
    by (simp add: from_base64_def unsextets_sextets)
qed

lemma js_split_nonempty: "js_split c s \<noteq> []"
  by (induction s) (auto split: list.splits)

lemma js_split_none: "c \<notin> set s \<Longrightarrow> js_split c s = [s]"
  by (induction s) auto

lemma js_split_app: "c \<notin> set a \<Longrightarrow> js_split c (a @ c # b) = a # js_split c b"
  by (induction a) (auto split: list.splits)

lemma generateHash_hex: "generateHash sha256 r = Inr u \<Longrightarrow> \<exists>bs. u = to_hex bs"
  by (auto simp: generateHash_def split: resource.splits json.splits)

lemma generateUniqueId_hex:
  "generateUniqueId sha256 r resourceType sp = Inr u \<Longrightarrow> \<exists>bs. u = to_hex bs"
  by (auto simp: generateUniqueId_def dest: generateHash_hex split: if_splits resource.splits json.splits)

lemma owner_tag_chars: "owner_tag sha256 opts = Some h \<Longrightarrow> CHR '':'' \<notin> set h"
proof -
  assume "owner_tag sha256 opts = Some h"
  then obtain s where "h = take 8 (to_hex (sha256 s))"
    by (auto simp: owner_tag_def split: option.splits if_splits)
  then have "set h \<subseteq> set ''0123456789abcdef''"
    using to_hex_chars set_take_subset by fast
  then show ?thesis by auto
qed

lemma decompress_parts:
  assumes m: "CHR '':'' \<notin> set m" and t: "CHR '':'' \<notin> set rt"
    and o: "case ot of None \<Rightarrow> True | Some h \<Rightarrow> CHR '':'' \<notin> set h"
  shows "decompressDID (''did:'' @ m @ '':'' @ rt @ '':'' @ url_digits bs
            @ (case ot of None \<Rightarrow> [] | Some h \<Rightarrow> '':'' @ h))
     = Inr \<lparr>dmethod = m, dresourceType = rt, didentifier = to_hex bs, downer = ot\<rparr>"
proof -
  let ?c = "CHR '':''"
  let ?rest = "url_digits bs @ (case ot of None \<Rightarrow> [] | Some h \<Rightarrow> '':'' @ h)"
  have r: "js_split ?c ?rest = url_digits bs # (case ot of None \<Rightarrow> [] | Some h \<Rightarrow> [h])"
  proof (cases ot)
    case None
    then show ?thesis using url_digits_chars(2)[of bs] by (simp add: js_split_none)
  next
    case (Some h)
    then have "js_split ?c (url_digits bs @ ?c # h) = url_digits bs # [h]"
      using o url_digits_chars(2)[of bs] by (simp add: js_split_app js_split_none)
    then show ?thesis using Some by simp
  qed
  have 1: "js_split ?c (''did'' @ ?c # (m @ ?c # (rt @ ?c # ?rest)))
      = ''did'' # js_split ?c (m @ ?c # (rt @ ?c # ?rest))"
    by (rule js_split_app) simp
  have 2: "js_split ?c (m @ ?c # (rt @ ?c # ?rest)) = m # js_split ?c (rt @ ?c # ?rest)"
    by (rule js_split_app[OF m])
  have 3: "js_split ?c (rt @ ?c # ?rest) = rt # js_split ?c ?rest"
    by (rule js_split_app[OF t])
  have "''did:'' @ m @ '':'' @ rt @ '':'' @ ?rest = ''did'' @ ?c # (m @ ?c # (rt @ ?c # ?rest))"
    by simp
  then have "js_split ?c (''did:'' @ m @ '':'' @ rt @ '':'' @ ?rest)
      = js_split ?c (''did'' @ ?c # (m @ ?c # (rt @ ?c # ?rest)))"
    by (rule arg_cong)
  also have "\<dots> = ''did'' # m # rt # js_split ?c ?rest"
    unfolding 1 2 3 ..
  also have "\<dots> = ''did'' # m # rt # url_digits bs # (case ot of None \<Rightarrow> [] | Some h \<Rightarrow> [h])"
    unfolding r ..
  finally have parts: "js_split ?c (''did:'' @ m @ '':'' @ rt @ '':'' @ ?rest)
      = ''did'' # m # rt # url_digits bs # (case ot of None \<Rightarrow> [] | Some h \<Rightarrow> [h])" .
  show ?thesis
    unfolding decompressDID_def parts Let_def
    by (cases ot) (simp_all add: decode_url_digits)
qed

text \<open>
  C3 (as amended).  Under the \<open>base64url\<close> encoding (the factory default), for a
  method and a resource type without a colon, decoding the identifier that
  \<open>generateDID\<close> produces recovers the method, the resource type, the digest (as the hex
  text the factory computed) and, when a non-empty owner was given, the owner tag: the
  first 8 hex digits of the SHA-256 of the owner string.
\<close>

theorem decompress_generateDID:
  assumes "did_compression f opts = BASE64URL"
    and "CHR '':'' \<notin> set (did_method f resourceType opts)"
    and "CHR '':'' \<notin> set resourceType"
    and "generateUniqueId sha256 r resourceType (or_else (specificProps opts) []) = Inr uniqueId"
  shows "\<exists>did. generateDID f sha256 r resourceType opts = Inr did \<and>
     decompressDID did = Inr \<lparr>dmethod = did_method f resourceType opts,
       dresourceType = resourceType, didentifier = uniqueId, downer = owner_tag sha256 opts\<rparr>"
proof -
  from generateUniqueId_hex[OF assms(4)] obtain bs where u: "uniqueId = to_hex bs" by blast
  let ?ot = "owner_tag sha256 opts"
  let ?did = "''did:'' @ did_method f resourceType opts @ '':'' @ resourceType @ '':'' @ url_digits bs
            @ (case ?ot of None \<Rightarrow> [] | Some h \<Rightarrow> '':'' @ h)"
  have g: "generateDID f sha256 r resourceType opts = Inr ?did"
    using assms(1,4) u by (simp add: generateDID_def compress_base64url)
  have o: "case ?ot of None \<Rightarrow> True | Some h \<Rightarrow> CHR '':'' \<notin> set h"
    using owner_tag_chars[of sha256 opts] by (cases ?ot) simp_all
  show ?thesis
    using g decompress_parts[OF assms(2,3) o, of bs] u by simp
qed

definition zero_sha :: "string \<Rightarrow> byte list" where
  "zero_sha s = replicate 32 0"

definition alice_options :: did_options where
  "alice_options = \<lparr>omethod = None, compression = None, specificProps = None, owner = Some ''alice''\<rparr>"

theorem decompress_generateDID_witness:
  "\<exists>did. generateDID default_factory zero_sha (RValue (JStr ''hello world'')) ''text'' alice_options = Inr did \<and>
     decompressDID did = Inr \<lparr>dmethod = ''asset'', dresourceType = ''text'',
       didentifier = ''0000000000000000000000000000000000000000000000000000000000000000'',
       downer = Some ''00000000''\<rparr>"
proof -
  have c: "did_compression default_factory alice_options = BASE64URL"
    by (simp add: did_compression_def default_factory_def alice_options_def js_or_str_def)
  have m: "did_method default_factory ''text'' alice_options = ''asset''"
    by (simp add: did_method_def default_factory_def alice_options_def js_or_str_def ASSET_def)
  have 1: "CHR '':'' \<notin> set (did_method default_factory ''text'' alice_options)"
    unfolding m by simp
  have 2: "CHR '':'' \<notin> set ''text''" by simp
  have u: "generateUniqueId zero_sha (RValue (JStr ''hello world'')) ''text'' (or_else (specificProps alice_options) [])
      = Inr ''0000000000000000000000000000000000000000000000000000000000000000''"
    by code_simp
  have o: "owner_tag zero_sha alice_options = Some ''00000000''"
    by code_simp
  show ?thesis
    using decompress_generateDID[OF c 1 2 u] unfolding m o .
qed

text \<open>
  C3 as stated fails for the \<open>hex\<close> encoding: \<open>decompressDID\<close> reads the 64 hex digits
  as base64url digits and returns the hex text of the 48 bytes they denote.
\<close>

theorem decompress_generateDID_counterexample:
  "generateUniqueId zero_sha (RValue (JStr ''hello world'')) ''text'' []
     = Inr ''0000000000000000000000000000000000000000000000000000000000000000'' \<and>
   generateDID default_factory zero_sha (RValue (JStr ''hello world'')) ''text''
       \<lparr>omethod = None, compression = Some HEX, specificProps = None, owner = None\<rparr>
     = Inr ''did:asset:text:0000000000000000000000000000000000000000000000000000000000000000'' \<and>
   map_sum id didentifier (decompressDID
       ''did:asset:text:0000000000000000000000000000000000000000000000000000000000000000'')
     = Inr ''d34d34d34d34d34d34d34d34d34d34d34d34d34d34d34d34d34d34d34d34d34d34d34d34d34d34d34d34d34d34d34d34''"
  by code_simp

subsection \<open>Key order does not reach the identifier\<close>

text \<open>Two property lists with the same keys in the same order and values that serialize
  alike under every property list.\<close>

definition ser_eq :: "(string \<times> json) list \<Rightarrow> (string \<times> json) list \<Rightarrow> bool" where
  "ser_eq as bs =
     list_all2 (\<lambda>p q. fst p = fst q \<and> (\<forall>K. stringify K (snd p) = stringify K (snd q))) as bs"

lemma ser_eq_refl: "ser_eq as as"
  by (simp add: ser_eq_def list_all2_refl)

lemma ser_eq_update: "ser_eq as bs \<Longrightarrow> ser_eq (AList.update k v as) (AList.update k v bs)"
  unfolding ser_eq_def
  by (induction rule: list_all2_induct) auto

lemma ser_eq_assign: "ser_eq as bs \<Longrightarrow> ser_eq (obj_assign as sp) (obj_assign bs sp)"
  unfolding obj_assign_def
proof (induction sp arbitrary: as bs)
  case Nil
  then show ?case by simp
next
  case (Cons p sp)
  obtain k v where p: "p = (k, v)" by (cases p)
  have "ser_eq (obj_set k v as) (obj_set k v bs)"
    using Cons.prems by (simp add: obj_set_def ser_eq_update)
  then show ?case using Cons.IH p by simp
qed

lemma ser_eq_keys: "ser_eq as bs \<Longrightarrow> map fst as = map fst bs"
  unfolding ser_eq_def
  by (induction rule: list_all2_induct) auto

lemma ser_eq_members:
  "ser_eq as bs \<Longrightarrow>
   map (\<lambda>(k, v). (k, stringify K v)) as = map (\<lambda>(k, v). (k, stringify K v)) bs"
  unfolding ser_eq_def
  by (induction rule: list_all2_induct) (auto simp: case_prod_beta)

lemma ser_eq_hash:
  assumes "ser_eq as bs"
  shows "generateHash sha256 (RValue (JObj as)) = generateHash sha256 (RValue (JObj bs))"
proof -
  have "sorted_keys as = sorted_keys bs"
    using ser_eq_keys[OF assms] by (simp add: sorted_keys_def)
  moreover have "stringify K (JObj as) = stringify K (JObj bs)" for K
    using ser_eq_members[OF assms, of K] by simp
  ultimately show ?thesis by (simp add: generateHash_def)
qed

lemma same_pairs_uniqueId:
  assumes "same_pairs (JObj xs) (JObj ys)"
  shows "generateUniqueId sha256 (RValue (JObj xs)) resourceType sp
       = generateUniqueId sha256 (RValue (JObj ys)) resourceType sp"
proof -
  have "ser_eq [(''resource'', JObj xs), (''resourceType'', JStr resourceType)]
               [(''resource'', JObj ys), (''resourceType'', JStr resourceType)]"
    using same_pairs_stringify[OF assms] by (simp add: ser_eq_def)
  then have "ser_eq (wrap_resource (RValue (JObj xs)) resourceType sp)
                    (wrap_resource (RValue (JObj ys)) resourceType sp)"
    unfolding wrap_resource_def using ser_eq_assign by simp
  then show ?thesis
    by (simp add: generateUniqueId_def ser_eq_hash)
qed

text \<open>
  C2.  Two attribute objects with the same key-value pairs, nested objects included, listed
  in different key orders have the same canonical serialization, hence the same hash, and
  \<open>generateDID\<close> derives the same identifier from them.
\<close>

theorem generateHash_key_order:
  assumes "same_pairs (JObj xs) (JObj ys)"
  shows "stringify (sorted_keys xs) (JObj xs) = stringify (sorted_keys ys) (JObj ys) \<and>
     generateHash sha256 (RValue (JObj xs)) = generateHash sha256 (RValue (JObj ys)) \<and>
     generateDID f sha256 (RValue (JObj xs)) resourceType opts
       = generateDID f sha256 (RValue (JObj ys)) resourceType opts"
proof -
  have "stringify (sorted_keys xs) (JObj xs) = stringify (sorted_keys ys) (JObj ys)"
    using same_pairs_sorted_keys[OF assms] same_pairs_stringify[OF assms] by simp
  moreover have "generateDID f sha256 (RValue (JObj xs)) resourceType opts
       = generateDID f sha256 (RValue (JObj ys)) resourceType opts"
    using same_pairs_uniqueId[OF assms] by (simp add: generateDID_def)
  ultimately show ?thesis by (simp add: generateHash_def)
qed

theorem generateHash_key_order_witness:
  "stringify (sorted_keys order_ba) (JObj order_ba) = stringify (sorted_keys order_ab) (JObj order_ab) \<and>
   generateHash zero_sha (RValue (JObj order_ba)) = generateHash zero_sha (RValue (JObj order_ab)) \<and>
   generateDID default_factory zero_sha (RValue (JObj order_ba)) ''generic'' alice_options
     = generateDID default_factory zero_sha (RValue (JObj order_ab)) ''generic'' alice_options"
proof -
  have inner: "same_pairs (JObj [(''y'', JStr ''v''), (''a'', JNum 2)]) (JObj [(''a'', JNum 2), (''y'', JStr ''v'')])"
    by (rule same_pairs.obj) (auto intro: same_pairs.intros split: if_splits)
  have "same_pairs (JObj order_ba) (JObj order_ab)"
    unfolding order_ba_def order_ab_def
    by (rule same_pairs.obj) (auto intro: same_pairs.intros inner split: if_splits)
  then show ?thesis by (rule generateHash_key_order)
qed

end
